theory Spec2Isabelle
  imports Main "HOL-Library.AList" "HOL-Library.Multiset"
begin

section \<open>Time: the part of the date library the bot uses\<close>

text \<open>
  Both variants of the bot (\<^verbatim>\<open>index.js\<close> and the longer second variant) compute with
  Luxon \<^verbatim>\<open>DateTime\<close> values in the fixed zone UTC. A \<^verbatim>\<open>DateTime\<close> is either valid,
  and then determined by its epoch timestamp in milliseconds, or invalid; an invalid one
  is still an object (truthy), its \<^verbatim>\<open>valueOf()\<close> is \<^verbatim>\<open>NaN\<close> and its \<^verbatim>\<open>toISO()\<close> is
  \<^verbatim>\<open>null\<close>. The calendar arithmetic below is the proleptic Gregorian calendar that the
  library (through \<^verbatim>\<open>Date.UTC\<close>) implements.
\<close>

datatype DateTime = DT int | InvalidDT

record comps =
  c_year :: int
  c_month :: int
  c_day :: int
  c_hour :: int
  c_minute :: int
  c_second :: int
  c_millisecond :: int

record Duration =
  d_years :: int
  d_months :: int
  d_days :: int
  d_hours :: int
  d_minutes :: int

definition no_duration :: Duration where
  "no_duration = \<lparr>d_years = 0, d_months = 0, d_days = 0, d_hours = 0, d_minutes = 0\<rparr>"

definition isLeapYear :: "int \<Rightarrow> bool" where
  "isLeapYear y = (y mod 4 = 0 \<and> (y mod 100 \<noteq> 0 \<or> y mod 400 = 0))"

text \<open>\<^verbatim>\<open>daysInMonth(year, month)\<close> of the library accepts a month outside 1..12 and
  carries it into the year.\<close>

definition daysInMonth :: "int \<Rightarrow> int \<Rightarrow> int" where
  "daysInMonth y m =
     (let modMonth = (m - 1) mod 12 + 1;
          modYear = y + (m - modMonth) div 12
      in if modMonth = 2 then (if isLeapYear modYear then 29 else 28)
         else [31, 0, 31, 30, 31, 30, 31, 31, 30, 31, 30, 31] ! nat (modMonth - 1))"

text \<open>Days from 0001-01-01 to the first day of year \<open>y\<close>, and from the first day of a
  year to the first day of month \<open>m\<close> (1..12) in it.\<close>

definition days_before_year :: "int \<Rightarrow> int" where
  "days_before_year y = 365 * (y - 1) + (y - 1) div 4 - (y - 1) div 100 + (y - 1) div 400"

definition days_before_month :: "bool \<Rightarrow> int \<Rightarrow> int" where
  "days_before_month leap m =
     [0, 31, 59, 90, 120, 151, 181, 212, 243, 273, 304, 334] ! nat (m - 1)
       + (if leap \<and> 2 < m then 1 else 0)"

text \<open>\<^verbatim>\<open>Date.UTC\<close>: days since 1970-01-01 of a civil date; a month outside 1..12 and a
  day outside the month are carried over, as \<^verbatim>\<open>Date.UTC\<close> does.\<close>

definition days_from_civil :: "int \<Rightarrow> int \<Rightarrow> int \<Rightarrow> int" where
  "days_from_civil y m d =
     (let m' = (m - 1) mod 12 + 1;
          y' = y + (m - 1) div 12
      in days_before_year y' + days_before_month (isLeapYear y') m' + (d - 1) - 719162)"

definition objToTS :: "comps \<Rightarrow> int" where
  "objToTS c =
     ((days_from_civil (c_year c) (c_month c) (c_day c) * 24 + c_hour c) * 60 + c_minute c) * 60000
       + c_second c * 1000 + c_millisecond c"

definition year_of_days :: "int \<Rightarrow> int \<times> int" where
  "year_of_days n =
     (let N = n + 719162;
          n400 = N div 146097;
          r = N mod 146097;
          n100 = min 3 (r div 36524);
          r2 = r - n100 * 36524;
          n4 = r2 div 1461;
          r3 = r2 mod 1461;
          n1 = min 3 (r3 div 365)
      in (400 * n400 + 100 * n100 + 4 * n4 + n1 + 1, r3 - n1 * 365))"

definition month_of_doy :: "bool \<Rightarrow> int \<Rightarrow> int" where
  "month_of_doy leap doy =
     int (length (filter (\<lambda>m. days_before_month leap m \<le> doy) [1, 2, 3, 4, 5, 6, 7, 8, 9, 10, 11, 12]))"

definition tsToObj :: "int \<Rightarrow> comps" where
  "tsToObj ts =
     (let n = ts div 86400000;
          r = ts mod 86400000;
          (y, doy) = year_of_days n;
          m = month_of_doy (isLeapYear y) doy
      in \<lparr>c_year = y, c_month = m, c_day = doy - days_before_month (isLeapYear y) m + 1,
          c_hour = r div 3600000, c_minute = (r mod 3600000) div 60000,
          c_second = (r mod 60000) div 1000, c_millisecond = r mod 1000\<rparr>)"

text \<open>\<^verbatim>\<open>DateTime.fromObject({year, month, day, hour, minute}, {zone: "UTC"})\<close>: a unit out
  of range gives an invalid \<^verbatim>\<open>DateTime\<close> (no exception); hour 24 is accepted with
  minute 0.\<close>

definition fromObject :: "int \<Rightarrow> int \<Rightarrow> int \<Rightarrow> int \<Rightarrow> int \<Rightarrow> DateTime" where
  "fromObject y m d h mi =
     (if 1 \<le> m \<and> m \<le> 12 \<and> 1 \<le> d \<and> d \<le> daysInMonth y m
         \<and> ((0 \<le> h \<and> h \<le> 23) \<or> (h = 24 \<and> mi = 0)) \<and> 0 \<le> mi \<and> mi \<le> 59
      then DT (objToTS \<lparr>c_year = y, c_month = m, c_day = d, c_hour = h, c_minute = mi,
                        c_second = 0, c_millisecond = 0\<rparr>)
      else InvalidDT)"

text \<open>\<^verbatim>\<open>dt.plus(duration)\<close>: years and months move the calendar date and clamp the day
  to the length of the target month, days are added to the date, hours and minutes to the
  timestamp. An invalid \<^verbatim>\<open>DateTime\<close> stays invalid.\<close>

definition plus_ts :: "int \<Rightarrow> Duration \<Rightarrow> int" where
  "plus_ts ts dur =
     (let c = tsToObj ts;
          y = c_year c + d_years dur;
          m = c_month c + d_months dur;
          c' = c\<lparr>c_year := y, c_month := m,
                 c_day := min (c_day c) (daysInMonth y m) + d_days dur\<rparr>
      in objToTS c' + (d_hours dur * 60 + d_minutes dur) * 60000)"

fun plus_dt :: "DateTime \<Rightarrow> Duration \<Rightarrow> DateTime" where
  "plus_dt (DT ts) dur = DT (plus_ts ts dur)"
| "plus_dt InvalidDT dur = InvalidDT"

definition negate :: "Duration \<Rightarrow> Duration" where
  "negate dur = \<lparr>d_years = - d_years dur, d_months = - d_months dur, d_days = - d_days dur,
                 d_hours = - d_hours dur, d_minutes = - d_minutes dur\<rparr>"

definition minus_dt :: "DateTime \<Rightarrow> Duration \<Rightarrow> DateTime" where
  "minus_dt dt dur = plus_dt dt (negate dur)"

text \<open>\<^verbatim>\<open>toMillis()\<close> / \<^verbatim>\<open>valueOf()\<close>: \<open>None\<close> stands for \<^verbatim>\<open>NaN\<close>. Every comparison
  with \<^verbatim>\<open>NaN\<close> is false.\<close>

fun toMillis :: "DateTime \<Rightarrow> int option" where
  "toMillis (DT ts) = Some ts"
| "toMillis InvalidDT = None"

fun js_lt :: "int option \<Rightarrow> int option \<Rightarrow> bool" where
  "js_lt (Some a) (Some b) = (a < b)"
| "js_lt _ _ = False"

fun js_le :: "int option \<Rightarrow> int option \<Rightarrow> bool" where
  "js_le (Some a) (Some b) = (a \<le> b)"
| "js_le _ _ = False"

fun js_sub :: "int option \<Rightarrow> int option \<Rightarrow> int option" where
  "js_sub (Some a) (Some b) = Some (a - b)"
| "js_sub _ _ = None"


section \<open>Strings\<close>

text \<open>
  A JavaScript string is a sequence of UTF-16 code units; \<^verbatim>\<open>length\<close>, \<^verbatim>\<open>slice\<close> and the
  regular expressions work on code units. Strings are modelled as \<^typ>\<open>string\<close>, one
  \<^typ>\<open>char\<close> per code unit, for code units below 256. The four characters outside that
  range that the bot's own texts contain each stand for one code unit and are represented
  by one \<^typ>\<open>char\<close>.
\<close>

definition bullet :: char where "bullet = CHR 0x95"
definition emdash :: char where "emdash = CHR 0x97"
definition ellipsis :: char where "ellipsis = CHR 0x85"
definition checkmark :: char where "checkmark = CHR 0x87"

text \<open>\<^verbatim>\<open>\s\<close> and \<^verbatim>\<open>trim()\<close>: tab, line feed, vertical tab, form feed, carriage return,
  space, no-break space.\<close>

definition is_ws :: "char \<Rightarrow> bool" where
  "is_ws ch = (ch \<in> set [CHR 0x09, CHR 0x0A, CHR 0x0B, CHR 0x0C, CHR 0x0D, CHR 0x20, CHR 0xA0])"

definition is_digit :: "char \<Rightarrow> bool" where
  "is_digit ch = (48 \<le> (of_char ch :: nat) \<and> (of_char ch :: nat) \<le> 57)"

definition is_alpha :: "char \<Rightarrow> bool" where
  "is_alpha ch = ((65 \<le> (of_char ch :: nat) \<and> (of_char ch :: nat) \<le> 90)
                 \<or> (97 \<le> (of_char ch :: nat) \<and> (of_char ch :: nat) \<le> 122))"

definition digit_val :: "char \<Rightarrow> int" where
  "digit_val ch = int (of_char ch) - 48"

definition trim :: "string \<Rightarrow> string" where
  "trim s = rev (dropWhile is_ws (rev (dropWhile is_ws s)))"

text \<open>\<^verbatim>\<open>replace(/\s+/g, " ")\<close>: every maximal run of whitespace becomes one space. The
  flag says whether the previous character belonged to a run.\<close>

primrec collapse_ws :: "bool \<Rightarrow> string \<Rightarrow> string" where
  "collapse_ws in_run [] = []"
| "collapse_ws in_run (ch # cs) =
     (if is_ws ch then (if in_run then collapse_ws True cs else CHR 0x20 # collapse_ws True cs)
      else ch # collapse_ws False cs)"

text \<open>\<^verbatim>\<open>replace(/^[A-Za-z]{3},\s*/g, "")\<close>: the pattern is anchored at the start, so at
  most one prefix is removed.\<close>

definition strip_weekday :: "string \<Rightarrow> string" where
  "strip_weekday s =
     (case s of
        a # b # c # d # r \<Rightarrow>
          if is_alpha a \<and> is_alpha b \<and> is_alpha c \<and> d = CHR '','' then dropWhile is_ws r else s
      | _ \<Rightarrow> s)"

definition normalizeLine :: "string \<Rightarrow> string" where
  "normalizeLine line = strip_weekday (collapse_ws False (trim line))"

text \<open>\<^verbatim>\<open>split(sep)\<close> and \<^verbatim>\<open>join(sep)\<close> for a one-character separator.\<close>

fun split_on :: "char \<Rightarrow> string \<Rightarrow> string list" where
  "split_on sep [] = [[]]"
| "split_on sep (ch # cs) =
     (if ch = sep then [] # split_on sep cs
      else (case split_on sep cs of [] \<Rightarrow> [[ch]] | w # ws \<Rightarrow> (ch # w) # ws))"

fun join_with :: "char \<Rightarrow> string list \<Rightarrow> string" where
  "join_with sep [] = []"
| "join_with sep [w] = w"
| "join_with sep (w # ws) = w @ sep # join_with sep ws"

text \<open>Decimal printing, \<^verbatim>\<open>padStart(n, width)\<close> with zeros, and \<^verbatim>\<open>toUpperCase\<close>
  on ASCII letters.\<close>

fun show_nat :: "nat \<Rightarrow> string" where
  "show_nat n = (if n < 10 then [char_of (48 + n)] else show_nat (n div 10) @ [char_of (48 + n mod 10)])"

definition padStart :: "int \<Rightarrow> nat \<Rightarrow> string" where
  "padStart n w =
     (let s = show_nat (nat \<bar>n\<bar>);
          padded = replicate (w - length s) (CHR ''0'') @ s
      in if n < 0 then CHR ''-'' # padded else padded)"

definition upper_char :: "char \<Rightarrow> char" where
  "upper_char ch = (if 97 \<le> (of_char ch :: nat) \<and> (of_char ch :: nat) \<le> 122
                    then char_of ((of_char ch :: nat) - 32) else ch)"

definition toUpperCase :: "string \<Rightarrow> string" where
  "toUpperCase s = map upper_char s"

section \<open>Parsing one schedule line\<close>

text \<open>
  The regular expression \<^verbatim>\<open>/^(\d{1,2})\.(\d{1,2})\.\s*(\d{1,2}):(\d{2})$/\<close>. Each group
  \<^verbatim>\<open>\d{1,2}\<close> is followed by a character that is not a digit, so the greedy match is the
  only one: two digits where two are there, else one.
\<close>

fun digits12 :: "string \<Rightarrow> (int \<times> string) option" where
  "digits12 (a # b # r) =
     (if is_digit a \<and> is_digit b then Some (digit_val a * 10 + digit_val b, r)
      else if is_digit a then Some (digit_val a, b # r)
      else None)"
| "digits12 [a] = (if is_digit a then Some (digit_val a, []) else None)"
| "digits12 [] = None"

fun expect :: "char \<Rightarrow> string \<Rightarrow> string option" where
  "expect ch (x # r) = (if x = ch then Some r else None)"
| "expect ch [] = None"

definition match_date :: "string \<Rightarrow> (int \<times> int \<times> int \<times> int) option" where
  "match_date s =
     (case digits12 s of None \<Rightarrow> None | Some (d, r1) \<Rightarrow>
      case expect (CHR ''.'') r1 of None \<Rightarrow> None | Some r2 \<Rightarrow>
      case digits12 r2 of None \<Rightarrow> None | Some (mth, r3) \<Rightarrow>
      case expect (CHR ''.'') r3 of None \<Rightarrow> None | Some r4 \<Rightarrow>
      case digits12 (dropWhile is_ws r4) of None \<Rightarrow> None | Some (h, r5) \<Rightarrow>
      case expect (CHR '':'') r5 of None \<Rightarrow> None | Some r6 \<Rightarrow>
      case r6 of
        [a, b] \<Rightarrow> if is_digit a \<and> is_digit b
                  then Some (d, mth, h, digit_val a * 10 + digit_val b) else None
      | _ \<Rightarrow> None)"

definition five_minutes :: Duration where
  "five_minutes = no_duration\<lparr>d_minutes := 5\<rparr>"

definition one_year :: Duration where
  "one_year = no_duration\<lparr>d_years := 1\<rparr>"

text \<open>\<^verbatim>\<open>parseDateLineUTC(line)\<close>, with the reading \<open>now\<close> of the clock
  (\<^verbatim>\<open>DateTime.now()\<close>, epoch milliseconds) as an argument. \<open>None\<close> is \<^verbatim>\<open>null\<close>.\<close>

definition parseDateLineUTC :: "int \<Rightarrow> string \<Rightarrow> DateTime option" where
  "parseDateLineUTC now line =
     (let s = normalizeLine line in
      if s = [] then None
      else case match_date s of
        None \<Rightarrow> None
      | Some (d, mth, h, mi) \<Rightarrow>
          let dt = fromObject (c_year (tsToObj now)) mth d h mi in
          Some (if js_lt (toMillis dt) (toMillis (minus_dt (DT now) five_minutes))
                then plus_dt dt one_year else dt))"


section \<open>Formatting dates\<close>

text \<open>\<^verbatim>\<open>toISO()\<close> in UTC: \<^verbatim>\<open>YYYY-MM-DDTHH:mm:ss.SSSZ\<close>, with a sign and six digits for a
  year outside 0..9999; \<open>None\<close> (\<^verbatim>\<open>null\<close>) for an invalid \<^verbatim>\<open>DateTime\<close>.\<close>

definition iso_year :: "int \<Rightarrow> string" where
  "iso_year y =
     (if 9999 < y then CHR ''+'' # padStart y 6
      else if y < 0 then padStart y 6
      else padStart y 4)"

fun toISO :: "DateTime \<Rightarrow> string option" where
  "toISO InvalidDT = None"
| "toISO (DT ts) =
     (let c = tsToObj ts in
      Some (iso_year (c_year c) @ ''-'' @ padStart (c_month c) 2 @ ''-'' @ padStart (c_day c) 2
            @ ''T'' @ padStart (c_hour c) 2 @ '':'' @ padStart (c_minute c) 2
            @ '':'' @ padStart (c_second c) 2 @ ''.'' @ padStart (c_millisecond c) 3 @ ''Z''))"

text \<open>A template literal prints \<^verbatim>\<open>null\<close> as the four characters \<^verbatim>\<open>null\<close>.\<close>

definition template_str :: "string option \<Rightarrow> string" where
  "template_str v = (case v of None \<Rightarrow> ''null'' | Some s \<Rightarrow> s)"

text \<open>\<^verbatim>\<open>toFormat("ccc dd.LL HH:mm")\<close> in UTC with English weekday names; 1970-01-01 was
  a Thursday. An invalid \<^verbatim>\<open>DateTime\<close> prints as \<^verbatim>\<open>Invalid DateTime\<close>.\<close>

definition weekday_short :: "int \<Rightarrow> string" where
  "weekday_short ts =
     [''Mon'', ''Tue'', ''Wed'', ''Thu'', ''Fri'', ''Sat'', ''Sun''] ! nat ((ts div 86400000 + 3) mod 7)"

fun toFormat_ccc_dd_LL_HH_mm :: "DateTime \<Rightarrow> string" where
  "toFormat_ccc_dd_LL_HH_mm InvalidDT = ''Invalid DateTime''"
| "toFormat_ccc_dd_LL_HH_mm (DT ts) =
     (let c = tsToObj ts in
      weekday_short ts @ '' '' @ padStart (c_day c) 2 @ ''.'' @ padStart (c_month c) 2
        @ '' '' @ padStart (c_hour c) 2 @ '':'' @ padStart (c_minute c) 2)"

text \<open>\<^verbatim>\<open>fmtUTC(dt)\<close> of the second variant; \<^verbatim>\<open>fmt(dt)\<close> of \<^verbatim>\<open>index.js\<close> has the
  suffix inside the format string, so an invalid date prints without it.\<close>

definition fmtUTC :: "DateTime \<Rightarrow> string" where
  "fmtUTC dt = toFormat_ccc_dd_LL_HH_mm dt @ '' UTC''"

fun fmt_index :: "DateTime \<Rightarrow> string" where
  "fmt_index InvalidDT = ''Invalid DateTime''"
| "fmt_index (DT ts) = toFormat_ccc_dd_LL_HH_mm (DT ts) @ '' UTC''"

section \<open>Events and the schedule files\<close>

record event =
  ev_type :: string
  startsAt :: DateTime
  key :: string

definition mk_key :: "string \<Rightarrow> DateTime \<Rightarrow> string" where
  "mk_key typeLabel dt = typeLabel @ '':'' @ template_str (toISO dt)"

definition mk_event :: "string \<Rightarrow> DateTime \<Rightarrow> event" where
  "mk_event typeLabel dt = \<lparr>ev_type = typeLabel, startsAt = dt, key = mk_key typeLabel dt\<rparr>"

text \<open>
  \<^verbatim>\<open>events.sort((a, b) => a.startsAt.toMillis() - b.startsAt.toMillis())\<close> (and the same
  with \<^verbatim>\<open>a.startsAt - b.startsAt\<close> in \<^verbatim>\<open>index.js\<close>). \<^verbatim>\<open>Array.prototype.sort\<close> is stable, so
  for valid dates the result is the stable sort by timestamp, which inserting the
  elements one by one, each behind the elements not greater than it, computes. With an
  invalid date among them the comparator returns \<^verbatim>\<open>NaN\<close> and the order is the engine's
  own, which the insertion does not follow: Node leaves the dates 5.3., invalid, 3.3.,
  4.3. in this order, the insertion below gives 3.3., 4.3., 5.3., invalid. For such an
  array \<open>js_sort\<close> stands for the elements of the result only; whatever is said below
  about the order of a catalog is said of catalogs without invalid dates.
\<close>

definition cmp_neg :: "event \<Rightarrow> event \<Rightarrow> bool" where
  "cmp_neg a b =
     (case js_sub (toMillis (startsAt a)) (toMillis (startsAt b)) of
        None \<Rightarrow> False | Some v \<Rightarrow> v < 0)"

fun js_insert :: "event \<Rightarrow> event list \<Rightarrow> event list" where
  "js_insert x [] = [x]"
| "js_insert x (y # ys) = (if cmp_neg x y then x # y # ys else y # js_insert x ys)"

definition js_sort :: "event list \<Rightarrow> event list" where
  "js_sort xs = foldl (\<lambda>acc x. js_insert x acc) [] xs"

text \<open>
  The loop of \<^verbatim>\<open>readScheduleFile\<close> over the lines, with the set \<^verbatim>\<open>seen\<close> and the array
  \<^verbatim>\<open>events\<close> as accumulators. Every call of \<^verbatim>\<open>parseDateLineUTC\<close> reads the clock again:
  \<open>clock i\<close> is the reading for the line at position \<open>i\<close>. The test \<^verbatim>\<open>if (!dt)\<close> is true
  for \<^verbatim>\<open>null\<close> only: an invalid \<^verbatim>\<open>DateTime\<close> is an object.
\<close>

fun collect :: "(nat \<Rightarrow> int) \<Rightarrow> string \<Rightarrow> nat \<Rightarrow> string list \<Rightarrow> string set \<Rightarrow> event list
                \<Rightarrow> event list" where
  "collect clock typeLabel i [] seen evs = evs"
| "collect clock typeLabel i (line # rest) seen evs =
     (case parseDateLineUTC (clock i) line of
        None \<Rightarrow> collect clock typeLabel (Suc i) rest seen evs
      | Some dt \<Rightarrow>
          let k = mk_key typeLabel dt in
          if k \<in> seen then collect clock typeLabel (Suc i) rest seen evs
          else collect clock typeLabel (Suc i) rest (insert k seen)
                 (evs @ [\<lparr>ev_type = typeLabel, startsAt = dt, key = k\<rparr>]))"

definition starts_with_hash :: "string \<Rightarrow> bool" where
  "starts_with_hash l = (case l of [] \<Rightarrow> False | ch # _ \<Rightarrow> ch = CHR ''#'')"

text \<open>The lines the second variant keeps: trimmed, not empty, not a comment.\<close>

definition schedule_lines :: "string \<Rightarrow> string list" where
  "schedule_lines text =
     filter (\<lambda>l. 0 < length l \<and> \<not> starts_with_hash l) (map trim (split_on (CHR 0x0A) text))"

text \<open>\<^verbatim>\<open>readScheduleFile(filePath, typeLabel)\<close>; \<open>content\<close> is the text of the file,
  \<open>None\<close> when the file does not exist.\<close>

definition readScheduleFile :: "(nat \<Rightarrow> int) \<Rightarrow> string option \<Rightarrow> string \<Rightarrow> event list" where
  "readScheduleFile clock content typeLabel =
     (case content of
        None \<Rightarrow> []
      | Some text \<Rightarrow> js_sort (collect clock typeLabel 0 (schedule_lines text) {} []))"

text \<open>\<^verbatim>\<open>readScheduleFile\<close> of \<^verbatim>\<open>index.js\<close>: every line of the file goes to the parser.\<close>

definition readScheduleFile_index :: "(nat \<Rightarrow> int) \<Rightarrow> string option \<Rightarrow> string \<Rightarrow> event list" where
  "readScheduleFile_index clock content typeLabel =
     (case content of
        None \<Rightarrow> []
      | Some text \<Rightarrow> js_sort (collect clock typeLabel 0 (split_on (CHR 0x0A) text) {} []))"


section \<open>The bot's state and the reload\<close>

text \<open>
  What one call of \<^verbatim>\<open>sendWarning\<close> meets outside the program: fetching the channel may
  reject, it may give no text channel (\<^verbatim>\<open>null\<close>, or \<^verbatim>\<open>isTextBased()\<close> false), and on a
  text channel \<^verbatim>\<open>channel.send\<close> may reject or deliver.
\<close>

datatype outcome = FetchRejects | Unresolved | SendRejects | Delivered

datatype completion = Returned | Rejected

text \<open>
  The module variables \<^verbatim>\<open>events\<close> and \<^verbatim>\<open>state.notified\<close> (an object from key to
  \<^verbatim>\<open>true\<close>, kept as an association list in insertion order), the content of
  \<^verbatim>\<open>state.json\<close> as last written by \<^verbatim>\<open>saveState\<close>, the texts delivered to the channel,
  and a trace of the calls of \<^verbatim>\<open>sendWarning\<close> with the key of the event and what the
  call met.
\<close>

record bot =
  events :: "event list"
  notified :: "(string \<times> bool) list"
  state_file :: "(string \<times> bool) list"
  posted :: "string list"
  calls :: "(string \<times> outcome) list"

definition isWarned :: "bot \<Rightarrow> string \<Rightarrow> bool" where
  "isWarned st k = (map_of (notified st) k = Some True)"

definition fourteen_days :: Duration where
  "fourteen_days = no_duration\<lparr>d_days := 14\<rparr>"

text \<open>The cleanup loop of the second variant:
  \<^verbatim>\<open>iso = k.split(":").slice(1).join(":")\<close>, \<^verbatim>\<open>t = DateTime.fromISO(iso, {zone}).toMillis()\<close>,
  delete when \<^verbatim>\<open>Number.isFinite(t) && t < cutoff\<close>. The ISO parser of the library is a
  parameter.\<close>

definition embedded_iso :: "string \<Rightarrow> string" where
  "embedded_iso k = join_with (CHR '':'') (drop 1 (split_on (CHR '':'') k))"

definition stale :: "(string \<Rightarrow> DateTime) \<Rightarrow> int \<Rightarrow> string \<Rightarrow> bool" where
  "stale fromISO now k =
     js_lt (toMillis (fromISO (embedded_iso k))) (toMillis (minus_dt (DT now) fourteen_days))"

definition prune :: "(string \<Rightarrow> DateTime) \<Rightarrow> int \<Rightarrow> (string \<times> bool) list \<Rightarrow> (string \<times> bool) list" where
  "prune fromISO now ntf =
     foldl (\<lambda>acc k. if stale fromISO now k then AList.delete k acc else acc) ntf (map fst ntf)"

text \<open>\<^verbatim>\<open>loadAllEvents()\<close> of the second variant. The arguments are the two clocks of
  the two file reads, the two file contents and the clock reading of the cleanup; the
  result is the returned counts and the new state.\<close>

definition loadAllEvents ::
  "(string \<Rightarrow> DateTime) \<Rightarrow> (nat \<Rightarrow> int) \<Rightarrow> string option \<Rightarrow> (nat \<Rightarrow> int) \<Rightarrow> string option \<Rightarrow> int
     \<Rightarrow> bot \<Rightarrow> (nat \<times> nat \<times> nat) \<times> bot" where
  "loadAllEvents fromISO clock_r ruins_txt clock_a altar_txt now st =
     (let ruins = readScheduleFile clock_r ruins_txt ''ruins'';
          altar = readScheduleFile clock_a altar_txt ''altar'';
          evs = js_sort (ruins @ altar);
          ntf = prune fromISO now (notified st)
      in ((length ruins, length altar, length evs),
          st\<lparr>events := evs, notified := ntf, state_file := ntf\<rparr>))"

text \<open>The cleanup loop of \<^verbatim>\<open>index.js\<close>: \<^verbatim>\<open>iso = k.split(":")[1]\<close> (\<^verbatim>\<open>undefined\<close> when
  the key has no colon, and then the date is invalid), delete when
  \<^verbatim>\<open>DateTime.fromISO(iso).diff(now, "days").days < -14\<close>, the difference being the
  milliseconds between the two divided by 86400000.\<close>

definition second_segment :: "string \<Rightarrow> string option" where
  "second_segment k = (case split_on (CHR '':'') k of _ # seg # _ \<Rightarrow> Some seg | _ \<Rightarrow> None)"

definition stale_index :: "(string \<Rightarrow> DateTime) \<Rightarrow> int \<Rightarrow> string \<Rightarrow> bool" where
  "stale_index fromISO now k =
     (case second_segment k of
        None \<Rightarrow> False
      | Some seg \<Rightarrow>
          (case js_sub (toMillis (fromISO seg)) (Some now) of
             None \<Rightarrow> False
           | Some diff \<Rightarrow> diff < - 14 * 86400000))"

definition prune_index :: "(string \<Rightarrow> DateTime) \<Rightarrow> int \<Rightarrow> (string \<times> bool) list \<Rightarrow> (string \<times> bool) list" where
  "prune_index fromISO now ntf =
     foldl (\<lambda>acc k. if stale_index fromISO now k then AList.delete k acc else acc) ntf (map fst ntf)"

definition loadAllEvents_index ::
  "(string \<Rightarrow> DateTime) \<Rightarrow> (nat \<Rightarrow> int) \<Rightarrow> string option \<Rightarrow> (nat \<Rightarrow> int) \<Rightarrow> string option \<Rightarrow> int
     \<Rightarrow> bot \<Rightarrow> bot" where
  "loadAllEvents_index fromISO clock_r ruins_txt clock_a altar_txt now st =
     (let ruins = readScheduleFile_index clock_r ruins_txt ''ruins'';
          altar = readScheduleFile_index clock_a altar_txt ''altar'';
          evs = js_sort (ruins @ altar);
          ntf = prune_index fromISO now (notified st)
      in st\<lparr>events := evs, notified := ntf, state_file := ntf\<rparr>)"

section \<open>Warnings\<close>

text \<open>
  \<^verbatim>\<open>sendWarning(ev)\<close>, the same in both variants. \<open>world\<close> tells what the \<open>n\<close>-th call
  of \<^verbatim>\<open>sendWarning\<close> meets. A rejected \<^verbatim>\<open>await\<close> leaves the function at that line;
  the key is marked and the state saved only behind a \<^verbatim>\<open>send\<close> that resolved.
\<close>

definition warning_text :: "string \<Rightarrow> event \<Rightarrow> string" where
  "warning_text suffix ev =
     ''@everyone '' @ (if ev_type ev = ''ruins'' then ''Ruins'' else ''Altar'')
       @ '' in 1 hour! '' @ suffix"

definition sendWarning :: "(nat \<Rightarrow> outcome) \<Rightarrow> string \<Rightarrow> event \<Rightarrow> bot \<Rightarrow> completion \<times> bot" where
  "sendWarning world suffix ev st =
     (let met = world (length (calls st));
          st1 = st\<lparr>calls := calls st @ [(key ev, met)]\<rparr>
      in case met of
           FetchRejects \<Rightarrow> (Rejected, st1)
         | Unresolved \<Rightarrow> (Returned, st1)
         | SendRejects \<Rightarrow> (Rejected, st1)
         | Delivered \<Rightarrow>
             (let ntf = AList.update (key ev) True (notified st1)
              in (Returned, st1\<lparr>posted := posted st1 @ [warning_text suffix ev],
                                 notified := ntf, state_file := ntf\<rparr>)))"

text \<open>
  \<^verbatim>\<open>schedulerTick()\<close>. \<^verbatim>\<open>diffSeconds\<close> is the difference of the two timestamps in
  milliseconds divided by 1000, so the window 3570..3630 seconds is 3570000..3630000
  milliseconds; for an invalid date it is \<^verbatim>\<open>NaN\<close> and both comparisons fail. A
  rejection inside \<^verbatim>\<open>sendWarning\<close> ends the tick.
\<close>

definition in_window :: "int \<Rightarrow> event \<Rightarrow> bool" where
  "in_window now ev =
     (case js_sub (toMillis (startsAt ev)) (Some now) of
        None \<Rightarrow> False
      | Some diff \<Rightarrow> diff \<le> 3630 * 1000 \<and> diff \<ge> 3570 * 1000)"

fun tick_loop :: "(nat \<Rightarrow> outcome) \<Rightarrow> string \<Rightarrow> int \<Rightarrow> event list \<Rightarrow> bot \<Rightarrow> completion \<times> bot" where
  "tick_loop world suffix now [] st = (Returned, st)"
| "tick_loop world suffix now (ev # rest) st =
     (if isWarned st (key ev) then tick_loop world suffix now rest st
      else if in_window now ev then
        (case sendWarning world suffix ev st of
           (Returned, st') \<Rightarrow> tick_loop world suffix now rest st'
         | (Rejected, st') \<Rightarrow> (Rejected, st'))
      else tick_loop world suffix now rest st)"

definition schedulerTick :: "(nat \<Rightarrow> outcome) \<Rightarrow> string \<Rightarrow> int \<Rightarrow> bot \<Rightarrow> completion \<times> bot" where
  "schedulerTick world suffix now st = tick_loop world suffix now (events st) st"

text \<open>
  Ticks one after the other, each over before the next one starts, at the given clock
  readings. Nothing handles the promise of a tick (\<^verbatim>\<open>setInterval(schedulerTick, 30_000)\<close>),
  and a rejection that nothing handles ends the process under the Node releases that
  discord.js 14 runs on: the run is over with the first tick that rejects.
\<close>

fun run_ticks :: "(nat \<Rightarrow> outcome) \<Rightarrow> string \<Rightarrow> int list \<Rightarrow> bot \<Rightarrow> bot" where
  "run_ticks world suffix [] st = st"
| "run_ticks world suffix (now # nows) st =
     (case schedulerTick world suffix now st of
        (Returned, st') \<Rightarrow> run_ticks world suffix nows st'
      | (Rejected, st') \<Rightarrow> st')"


section \<open>Ticks that overlap\<close>

text \<open>
  The timer does not wait for a tick. A call of \<^verbatim>\<open>schedulerTick\<close> runs until it has to
  wait for \<^verbatim>\<open>client.channels.fetch\<close> or for \<^verbatim>\<open>channel.send\<close> and is suspended there; the
  timer may fire meanwhile and start another tick, which reads the same \<^verbatim>\<open>state\<close>. A
  suspended tick is the clock reading taken at its start, the event whose \<^verbatim>\<open>sendWarning\<close>
  it is in, the \<^verbatim>\<open>await\<close> it waits at, and the events its loop has still to visit.
\<close>

datatype waiting = AtFetch | AtSend

record task =
  t_now :: int
  t_ev :: event
  t_at :: waiting
  t_rest :: "event list"

text \<open>What the outside does: the timer starts a tick at a clock reading, or the call
  that the suspended tick at some position waits for is answered.\<close>

datatype response = FetchRejected | NoTextChannel | TextChannel | SendRejected | SendResolved

datatype action = TimerFires int | Responds nat response

text \<open>The process: the state of the bot, the suspended ticks, whether the process is
  still running, and the keys of the events for which \<^verbatim>\<open>channel.send\<close> has been called,
  in the order of the calls.\<close>

record process =
  p_bot :: bot
  p_tasks :: "task list"
  p_alive :: bool
  p_sends :: "string list"

text \<open>The loop of \<^verbatim>\<open>schedulerTick\<close> up to its next call of \<^verbatim>\<open>sendWarning\<close>: the first
  event that is not marked now and is inside the window, with the events behind it.\<close>

fun next_due :: "bot \<Rightarrow> int \<Rightarrow> event list \<Rightarrow> (event \<times> event list) option" where
  "next_due st now [] = None"
| "next_due st now (ev # rest) =
     (if isWarned st (key ev) then next_due st now rest
      else if in_window now ev then Some (ev, rest)
      else next_due st now rest)"

text \<open>The loop runs on from the given events: it ends, leaving no task, or it is
  suspended in \<^verbatim>\<open>sendWarning\<close> at \<^verbatim>\<open>await client.channels.fetch(...)\<close>.\<close>

definition suspend :: "bot \<Rightarrow> int \<Rightarrow> event list \<Rightarrow> task list" where
  "suspend st now evs =
     (case next_due st now evs of
        None \<Rightarrow> []
      | Some (ev, rest) \<Rightarrow> [\<lparr>t_now = now, t_ev = ev, t_at = AtFetch, t_rest = rest\<rparr>])"

definition replace_task :: "nat \<Rightarrow> task list \<Rightarrow> task list \<Rightarrow> task list" where
  "replace_task i new ts = take i ts @ new @ drop (Suc i) ts"

text \<open>
  The call of \<^verbatim>\<open>sendWarning\<close> of the task at position \<open>i\<close> is over, having met \<open>met\<close>.
  \<^verbatim>\<open>sendWarning\<close> reads and writes \<^verbatim>\<open>state\<close> behind its last \<^verbatim>\<open>await\<close> only, so what it
  does to the state is what \<^const>\<open>sendWarning\<close> does to the state of this moment. When
  it returned, the loop of the tick runs on; when it rejected, the tick rejects and the
  process ends.
\<close>

definition settle :: "string \<Rightarrow> outcome \<Rightarrow> nat \<Rightarrow> process \<Rightarrow> process" where
  "settle suffix met i p =
     (let t = p_tasks p ! i;
          (r, st1) = sendWarning (\<lambda>n. met) suffix (t_ev t) (p_bot p)
      in case r of
           Rejected \<Rightarrow> p\<lparr>p_bot := st1, p_tasks := [], p_alive := False\<rparr>
         | Returned \<Rightarrow>
             p\<lparr>p_bot := st1,
                p_tasks := replace_task i (suspend st1 (t_now t) (t_rest t)) (p_tasks p)\<rparr>)"

text \<open>One step of the process. A tick started by the timer checks \<^verbatim>\<open>state.notified\<close> as
  it is then, whatever the suspended ticks are waiting for. A tick whose fetch gave a
  text channel calls \<^verbatim>\<open>channel.send\<close> and waits for it. An answer to a task that does
  not wait for it changes nothing, and nothing happens in a process that has ended.\<close>

fun step :: "string \<Rightarrow> action \<Rightarrow> process \<Rightarrow> process" where
  "step suffix (TimerFires now) p =
     (if p_alive p
      then p\<lparr>p_tasks := p_tasks p @ suspend (p_bot p) now (events (p_bot p))\<rparr>
      else p)"
| "step suffix (Responds i r) p =
     (if p_alive p \<and> i < length (p_tasks p) then
        (case (t_at (p_tasks p ! i), r) of
           (AtFetch, FetchRejected) \<Rightarrow> settle suffix FetchRejects i p
         | (AtFetch, NoTextChannel) \<Rightarrow> settle suffix Unresolved i p
         | (AtFetch, TextChannel) \<Rightarrow>
             p\<lparr>p_tasks := replace_task i [(p_tasks p ! i)\<lparr>t_at := AtSend\<rparr>] (p_tasks p),
                p_sends := p_sends p @ [key (t_ev (p_tasks p ! i))]\<rparr>
         | (AtSend, SendRejected) \<Rightarrow> settle suffix SendRejects i p
         | (AtSend, SendResolved) \<Rightarrow> settle suffix Delivered i p
         | _ \<Rightarrow> p)
      else p)"

fun exec :: "string \<Rightarrow> action list \<Rightarrow> process \<Rightarrow> process" where
  "exec suffix [] p = p"
| "exec suffix (a # as) p = exec suffix as (step suffix a p)"



section \<open>Queries and their replies\<close>

definition seven_days :: Duration where
  "seven_days = no_duration\<lparr>d_days := 7\<rparr>"

definition one_month :: Duration where
  "one_month = no_duration\<lparr>d_months := 1\<rparr>"

definition one_hour :: Duration where
  "one_hour = no_duration\<lparr>d_hours := 1\<rparr>"

text \<open>\<^verbatim>\<open>listUpcoming(range)\<close> and \<^verbatim>\<open>nextEvent()\<close> of the second variant; each reads the
  clock once.\<close>

definition in_range :: "int \<Rightarrow> Duration \<Rightarrow> event \<Rightarrow> bool" where
  "in_range now rng e =
     (js_le (Some now) (toMillis (startsAt e))
      \<and> js_le (toMillis (startsAt e)) (toMillis (plus_dt (DT now) rng)))"

definition listUpcoming :: "int \<Rightarrow> Duration \<Rightarrow> event list \<Rightarrow> event list" where
  "listUpcoming now rng evs = take 50 (filter (in_range now rng) evs)"

definition nextEvent :: "int \<Rightarrow> event list \<Rightarrow> event option" where
  "nextEvent now evs = List.find (\<lambda>e. js_le (Some now) (toMillis (startsAt e))) evs"

definition upcoming_line :: "event \<Rightarrow> string" where
  "upcoming_line e =
     bullet # '' **'' @ (if ev_type e = ''ruins'' then ''RUINS'' else ''ALTAR'')
       @ ''** opens: **'' @ fmtUTC (startsAt e)
       @ ''** | warn: **'' @ fmtUTC (minus_dt (startsAt e) one_hour) @ ''**''"

definition trimmed_marker :: string where
  "trimmed_marker = CHR 0x0A # ellipsis # ''(trimmed)''"

definition formatUpcomingLines :: "event list \<Rightarrow> string" where
  "formatUpcomingLines items =
     (if length items = 0 then ''No upcoming events in that range.''
      else let text = join_with (CHR 0x0A) (map upcoming_line items)
           in if 1800 < length text then take 1800 text @ trimmed_marker else text)"

definition week_reply :: "int \<Rightarrow> event list \<Rightarrow> string" where
  "week_reply now evs =
     ''**Upcoming (next 7 days, UTC)**'' @ CHR 0x0A # formatUpcomingLines (listUpcoming now seven_days evs)"

text \<open>The \<^verbatim>\<open>status\<close>, \<^verbatim>\<open>week\<close> and \<^verbatim>\<open>month\<close> handlers of \<^verbatim>\<open>index.js\<close>. Their callbacks
  read the clock for every element they look at: \<open>clock i\<close> is the reading at the
  element with index \<open>i\<close>.\<close>

definition status_find_index :: "(nat \<Rightarrow> int) \<Rightarrow> event list \<Rightarrow> event option" where
  "status_find_index clock evs =
     map_option snd
       (List.find (\<lambda>(i, e). js_lt (Some (clock i)) (toMillis (startsAt e))) (enumerate 0 evs))"

definition status_reply_index :: "(nat \<Rightarrow> int) \<Rightarrow> event list \<Rightarrow> string" where
  "status_reply_index clock evs =
     (case status_find_index clock evs of
        None \<Rightarrow> ''No upcoming events.''
      | Some n \<Rightarrow> ''Next **'' @ toUpperCase (ev_type n) @ ''** at **'' @ fmt_index (startsAt n) @ ''**'')"

definition until_index :: "Duration \<Rightarrow> (nat \<Rightarrow> int) \<Rightarrow> event list \<Rightarrow> event list" where
  "until_index rng clock evs =
     map snd
       (filter (\<lambda>(i, e). js_le (toMillis (startsAt e)) (toMillis (plus_dt (DT (clock i)) rng)))
          (enumerate 0 evs))"

definition listing_line_index :: "event \<Rightarrow> string" where
  "listing_line_index e =
     bullet # '' '' @ toUpperCase (ev_type e) @ '' '' @ emdash # '' '' @ fmt_index (startsAt e)"

definition week_reply_index :: "(nat \<Rightarrow> int) \<Rightarrow> event list \<Rightarrow> string" where
  "week_reply_index clock evs =
     (let list = until_index seven_days clock evs
      in if length list \<noteq> 0 then join_with (CHR 0x0A) (map listing_line_index list)
         else ''No events in next 7 days.'')"

definition month_reply_index :: "(nat \<Rightarrow> int) \<Rightarrow> event list \<Rightarrow> string" where
  "month_reply_index clock evs =
     (let list = until_index one_month clock evs
      in if length list \<noteq> 0 then join_with (CHR 0x0A) (map listing_line_index list)
         else ''No events in next month.'')"

section \<open>An ISO parser to run the cleanup with\<close>

text \<open>The shapes \<^verbatim>\<open>YYYY-MM-DD\<close>, then optionally
  \<^verbatim>\<open>THH\<close>, \<^verbatim>\<open>:mm\<close>, \<^verbatim>\<open>:ss\<close>, \<^verbatim>\<open>.SSS\<close> and \<^verbatim>\<open>Z\<close>, read in UTC. The theorems about
  the cleanup hold for every parser; this one only serves to run it.\<close>

fun iso_time :: "string \<Rightarrow> (int \<times> int \<times> int \<times> int) option" where
  "iso_time [h1, h2] =
     (if is_digit h1 \<and> is_digit h2 then Some (digit_val h1 * 10 + digit_val h2, 0, 0, 0) else None)"
| "iso_time [h1, h2, c1, m1, m2] =
     (if is_digit h1 \<and> is_digit h2 \<and> c1 = CHR '':'' \<and> is_digit m1 \<and> is_digit m2
      then Some (digit_val h1 * 10 + digit_val h2, digit_val m1 * 10 + digit_val m2, 0, 0) else None)"
| "iso_time [h1, h2, c1, m1, m2, c2, s1, s2] =
     (if is_digit h1 \<and> is_digit h2 \<and> c1 = CHR '':'' \<and> is_digit m1 \<and> is_digit m2
         \<and> c2 = CHR '':'' \<and> is_digit s1 \<and> is_digit s2
      then Some (digit_val h1 * 10 + digit_val h2, digit_val m1 * 10 + digit_val m2,
                 digit_val s1 * 10 + digit_val s2, 0) else None)"
| "iso_time [h1, h2, c1, m1, m2, c2, s1, s2, c3, f1, f2, f3] =
     (if is_digit h1 \<and> is_digit h2 \<and> c1 = CHR '':'' \<and> is_digit m1 \<and> is_digit m2
         \<and> c2 = CHR '':'' \<and> is_digit s1 \<and> is_digit s2
         \<and> c3 = CHR ''.'' \<and> is_digit f1 \<and> is_digit f2 \<and> is_digit f3
      then Some (digit_val h1 * 10 + digit_val h2, digit_val m1 * 10 + digit_val m2,
                 digit_val s1 * 10 + digit_val s2,
                 digit_val f1 * 100 + digit_val f2 * 10 + digit_val f3) else None)"
| "iso_time _ = None"

definition drop_Z :: "string \<Rightarrow> string" where
  "drop_Z s = (if s \<noteq> [] \<and> last s = CHR ''Z'' then butlast s else s)"

definition iso_datetime :: "int \<Rightarrow> int \<Rightarrow> int \<Rightarrow> int \<times> int \<times> int \<times> int \<Rightarrow> DateTime" where
  "iso_datetime y m d t =
     (case t of (h, mi, sec, ms) \<Rightarrow>
        if 1 \<le> m \<and> m \<le> 12 \<and> 1 \<le> d \<and> d \<le> daysInMonth y m
           \<and> h \<le> 23 \<and> mi \<le> 59 \<and> sec \<le> 59
        then DT (objToTS \<lparr>c_year = y, c_month = m, c_day = d, c_hour = h, c_minute = mi,
                          c_second = sec, c_millisecond = ms\<rparr>)
        else InvalidDT)"

fun fromISO_utc :: "string \<Rightarrow> DateTime" where
  "fromISO_utc (y1 # y2 # y3 # y4 # a # m1 # m2 # b # d1 # d2 # r) =
     (if is_digit y1 \<and> is_digit y2 \<and> is_digit y3 \<and> is_digit y4 \<and> a = CHR ''-''
         \<and> is_digit m1 \<and> is_digit m2 \<and> b = CHR ''-'' \<and> is_digit d1 \<and> is_digit d2
      then (let y = digit_val y1 * 1000 + digit_val y2 * 100 + digit_val y3 * 10 + digit_val y4;
                m = digit_val m1 * 10 + digit_val m2;
                d = digit_val d1 * 10 + digit_val d2
            in case r of
                 [] \<Rightarrow> iso_datetime y m d (0, 0, 0, 0)
               | t # r' \<Rightarrow>
                   if t = CHR ''T'' then
                     (case iso_time (drop_Z r') of
                        None \<Rightarrow> InvalidDT
                      | Some tm \<Rightarrow> iso_datetime y m d tm)
                   else InvalidDT)
      else InvalidDT)"
| "fromISO_utc _ = InvalidDT"


section \<open>Notions used in the statements\<close>

text \<open>The length of a year and of a month in days, and the calendar fields of a real
  instant: the ranges in which \<^const>\<open>tsToObj\<close> and \<^const>\<open>objToTS\<close> are inverse to each other.\<close>

definition year_length :: "int \<Rightarrow> int" where
  "year_length y = (if isLeapYear y then 366 else 365)"

definition month_length :: "bool \<Rightarrow> int \<Rightarrow> int" where
  "month_length leap m =
     (if m = 2 then (if leap then 29 else 28)
      else [31, 0, 31, 30, 31, 30, 31, 31, 30, 31, 30, 31] ! nat (m - 1))"

definition valid_comps :: "comps \<Rightarrow> bool" where
  "valid_comps c =
     (1 \<le> c_month c \<and> c_month c \<le> 12 \<and> 1 \<le> c_day c \<and> c_day c \<le> daysInMonth (c_year c) (c_month c)
      \<and> 0 \<le> c_hour c \<and> c_hour c \<le> 23 \<and> 0 \<le> c_minute c \<and> c_minute c \<le> 59
      \<and> 0 \<le> c_second c \<and> c_second c \<le> 59 \<and> 0 \<le> c_millisecond c \<and> c_millisecond c \<le> 999)"

text \<open>
  What the dedup of \<^verbatim>\<open>readScheduleFile\<close> is to compute, in the words of the policy
  "first occurrence kept, later duplicates discarded": the events the lines parse to, in
  the order of the lines, and of these every event but those whose key an earlier one
  has.
\<close>

fun keep_first :: "event list \<Rightarrow> event list" where
  "keep_first [] = []"
| "keep_first (e # es) = e # keep_first (filter (\<lambda>x. key x \<noteq> key e) es)"

fun parsed_events :: "(nat \<Rightarrow> int) \<Rightarrow> string \<Rightarrow> nat \<Rightarrow> string list \<Rightarrow> event list" where
  "parsed_events clock typeLabel i [] = []"
| "parsed_events clock typeLabel i (line # rest) =
     (case parseDateLineUTC (clock i) line of
        None \<Rightarrow> parsed_events clock typeLabel (Suc i) rest
      | Some dt \<Rightarrow> mk_event typeLabel dt # parsed_events clock typeLabel (Suc i) rest)"

text \<open>A catalog in ascending order of its start times, and one without invalid dates.\<close>

definition ascending :: "event list \<Rightarrow> bool" where
  "ascending evs = sorted_wrt (\<lambda>a b. js_le (toMillis (startsAt a)) (toMillis (startsAt b))) evs"

definition all_valid :: "event list \<Rightarrow> bool" where
  "all_valid evs = list_all (\<lambda>e. startsAt e \<noteq> InvalidDT) evs"

text \<open>The calls of \<^verbatim>\<open>sendWarning\<close> that are over in the second state and were not
  in the first.\<close>

definition new_calls :: "bot \<Rightarrow> bot \<Rightarrow> (string \<times> outcome) list" where
  "new_calls st st' = drop (length (calls st)) (calls st')"


text \<open>The events a tick calls \<^verbatim>\<open>sendWarning\<close> for when no call rejects and the keys
  are distinct: those not marked at the start of the tick and inside the window.\<close>

definition due :: "bot \<Rightarrow> int \<Rightarrow> event list \<Rightarrow> event list" where
  "due st now evs = filter (\<lambda>e. \<not> isWarned st (key e) \<and> in_window now e) evs"


text \<open>Ticks do not overlap in a sequence of actions when the timer fires only while no
  tick is suspended.\<close>

fun no_overlap :: "string \<Rightarrow> action list \<Rightarrow> process \<Rightarrow> bool" where
  "no_overlap suffix [] p = True"
| "no_overlap suffix (a # as) p =
     ((case a of TimerFires now \<Rightarrow> p_tasks p = [] | Responds i r \<Rightarrow> True)
      \<and> no_overlap suffix as (step suffix a p))"





text \<open>
  The answers a tick gets when it runs alone in a world: for every call of
  \<^verbatim>\<open>sendWarning\<close> the answers that make it meet what the world has for it; and the actions
  of a run of ticks in which every tick is answered to its end before the timer fires
  again.
\<close>

definition answers :: "outcome \<Rightarrow> action list" where
  "answers met =
     (case met of
        FetchRejects \<Rightarrow> [Responds 0 FetchRejected]
      | Unresolved \<Rightarrow> [Responds 0 NoTextChannel]
      | SendRejects \<Rightarrow> [Responds 0 TextChannel, Responds 0 SendRejected]
      | Delivered \<Rightarrow> [Responds 0 TextChannel, Responds 0 SendResolved])"

fun tick_answers :: "(nat \<Rightarrow> outcome) \<Rightarrow> string \<Rightarrow> int \<Rightarrow> event list \<Rightarrow> bot \<Rightarrow> action list" where
  "tick_answers world suffix now [] st = []"
| "tick_answers world suffix now (ev # rest) st =
     (if isWarned st (key ev) then tick_answers world suffix now rest st
      else if in_window now ev then
        answers (world (length (calls st))) @
        (case sendWarning world suffix ev st of
           (Returned, st') \<Rightarrow> tick_answers world suffix now rest st'
         | (Rejected, st') \<Rightarrow> [])
      else tick_answers world suffix now rest st)"

fun run_answers :: "(nat \<Rightarrow> outcome) \<Rightarrow> string \<Rightarrow> int list \<Rightarrow> bot \<Rightarrow> action list" where
  "run_answers world suffix [] st = []"
| "run_answers world suffix (now # nows) st =
     TimerFires now # tick_answers world suffix now (events st) st @
     (case schedulerTick world suffix now st of
        (Returned, st') \<Rightarrow> run_answers world suffix nows st'
      | (Rejected, st') \<Rightarrow> [])"

section \<open>Example inputs\<close>

text \<open>One event, 2024-03-05 14:00 UTC, in an otherwise empty bot; a world in which the
  first \<^verbatim>\<open>send\<close> rejects and every later one delivers.\<close>

definition ex_event :: event where
  "ex_event = \<lparr>ev_type = ''ruins'', startsAt = DT 1709647200000,
                key = ''ruins:2024-03-05T14:00:00.000Z''\<rparr>"

definition ex_state :: bot where
  "ex_state = \<lparr>events = [ex_event], notified = [], state_file = [], posted = [], calls = []\<rparr>"

definition world_reject_once :: "nat \<Rightarrow> outcome" where
  "world_reject_once n = (if n = 0 then SendRejects else Delivered)"




text \<open>A catalog of two events, both at 2024-03-05 14:00 UTC, the one of \<^verbatim>\<open>ruins.txt\<close> first.\<close>

definition ex_two :: "event list" where
  "ex_two =
     [\<lparr>ev_type = ''ruins'', startsAt = DT 1709647200000, key = ''ruins:2024-03-05T14:00:00.000Z''\<rparr>,
      \<lparr>ev_type = ''altar'', startsAt = DT 1709647200000, key = ''altar:2024-03-05T14:00:00.000Z''\<rparr>]"

text \<open>Sixty-two events, one every hour from 2024-03-01 00:00 UTC; a clock that shows the
  same time at every reading; a ledger key of an event at 14:30.\<close>

definition ex_hourly :: "event list" where
  "ex_hourly = map (\<lambda>i. mk_event ''ruins'' (DT (1709251200000 + int i * 3600000))) [0..<62]"

definition fixed_clock :: "int \<Rightarrow> nat \<Rightarrow> int" where
  "fixed_clock t i = t"

definition ex_key_1430 :: string where
  "ex_key_1430 = ''ruins:2024-03-05T14:30:00.000Z''"

section \<open>The example events carry the keys the code builds\<close>

lemma ex_event_key: "mk_event ''ruins'' (DT 1709647200000) = ex_event"
  unfolding ex_event_def by code_simp

lemma ex_two_keys: "map (\<lambda>e. mk_event (ev_type e) (startsAt e)) ex_two = ex_two"
  unfolding ex_two_def by code_simp

lemma ex_key_1430_key: "mk_key ''ruins'' (DT 1709649000000) = ex_key_1430"
  unfolding ex_key_1430_def by code_simp

section \<open>One call of sendWarning\<close>

lemma sendWarning_calls:
  "calls (snd (sendWarning world suffix ev st)) = calls st @ [(key ev, world (length (calls st)))]"
  by (simp add: sendWarning_def Let_def split: outcome.splits)

lemma sendWarning_events: "events (snd (sendWarning world suffix ev st)) = events st"
  by (simp add: sendWarning_def Let_def split: outcome.splits)

lemma sendWarning_notified:
  "notified (snd (sendWarning world suffix ev st)) =
     (if world (length (calls st)) = Delivered then AList.update (key ev) True (notified st)
      else notified st)"
  by (simp add: sendWarning_def Let_def split: outcome.splits)

lemma sendWarning_state_file:
  "state_file (snd (sendWarning world suffix ev st)) =
     (if world (length (calls st)) = Delivered then AList.update (key ev) True (notified st)
      else state_file st)"
  by (simp add: sendWarning_def Let_def split: outcome.splits)

lemma sendWarning_posted:
  "posted (snd (sendWarning world suffix ev st)) =
     (if world (length (calls st)) = Delivered then posted st @ [warning_text suffix ev]
      else posted st)"
  by (simp add: sendWarning_def Let_def split: outcome.splits)

lemma sendWarning_fst:
  "fst (sendWarning world suffix ev st) =
     (if world (length (calls st)) = Unresolved \<or> world (length (calls st)) = Delivered
      then Returned else Rejected)"
  by (simp add: sendWarning_def Let_def split: outcome.splits)

lemma isWarned_sendWarning:
  "isWarned (snd (sendWarning world suffix ev st)) k =
     (isWarned st k \<or> (k = key ev \<and> world (length (calls st)) = Delivered))"
  by (auto simp: isWarned_def sendWarning_notified update_conv')


section \<open>At most one delivery for a key\<close>


































section \<open>Ticks in turn\<close>

text \<open>
  When every tick is answered to its end before the timer fires again, the process does
  what \<^const>\<open>schedulerTick\<close> and \<^const>\<open>run_ticks\<close> say: a tick alone takes the state to
  the state of \<^const>\<open>tick_loop\<close> and ends the process exactly when that rejects, and a
  run of such ticks is a sequence of actions without overlap that takes the state to
  the state of \<^const>\<open>run_ticks\<close>.
\<close>

lemma exec_append: "exec suffix (as @ bs) p = exec suffix bs (exec suffix as p)"
  by (induction as arbitrary: p) simp_all

lemma no_overlap_append:
  "no_overlap suffix (as @ bs) p = (no_overlap suffix as p \<and> no_overlap suffix bs (exec suffix as p))"
  by (induction as arbitrary: p) simp_all

lemma sendWarning_world:
  "sendWarning (\<lambda>n. world (length (calls st))) suffix ev st = sendWarning world suffix ev st"
  by (simp add: sendWarning_def)

lemma answers_settle:
  assumes "p_tasks p = [\<lparr>t_now = now, t_ev = ev, t_at = AtFetch, t_rest = rest\<rparr>]" and "p_alive p"
  shows "p_bot (exec suffix (answers met) p) = snd (sendWarning (\<lambda>n. met) suffix ev (p_bot p))
       \<and> p_alive (exec suffix (answers met) p)
           = (fst (sendWarning (\<lambda>n. met) suffix ev (p_bot p)) = Returned)
       \<and> p_tasks (exec suffix (answers met) p)
           = (if fst (sendWarning (\<lambda>n. met) suffix ev (p_bot p)) = Returned
              then suspend (snd (sendWarning (\<lambda>n. met) suffix ev (p_bot p))) now rest else [])"
  using assms
  by (cases met) (simp_all add: answers_def settle_def replace_task_def sendWarning_def Let_def)

lemma answers_no_timer:
  "no_overlap suffix (answers met) p"
  by (cases met) (simp_all add: answers_def)

lemma tick_alone:
  assumes "p_bot p = st" and "p_tasks p = suspend st now evs" and "p_alive p"
  shows "p_bot (exec suffix (tick_answers world suffix now evs st) p)
           = snd (tick_loop world suffix now evs st)
       \<and> p_tasks (exec suffix (tick_answers world suffix now evs st) p) = []
       \<and> p_alive (exec suffix (tick_answers world suffix now evs st) p)
           = (fst (tick_loop world suffix now evs st) = Returned)"
  using assms
proof (induction evs arbitrary: st p)
  case Nil
  then show ?case by (simp add: suspend_def)
next
  case (Cons ev rest)
  show ?case
  proof (cases "\<not> isWarned st (key ev) \<and> in_window now ev")
    case False
    then have "suspend st now (ev # rest) = suspend st now rest" by (auto simp: suspend_def)
    then show ?thesis using False Cons.IH[of p st] Cons.prems by auto
  next
    case True
    have su: "p_tasks p = [\<lparr>t_now = now, t_ev = ev, t_at = AtFetch, t_rest = rest\<rparr>]"
      using True Cons.prems(2) by (simp add: suspend_def)
    obtain r st1 where sw: "sendWarning world suffix ev st = (r, st1)"
      by (cases "sendWarning world suffix ev st")
    have sw': "sendWarning (\<lambda>n. world (length (calls st))) suffix ev (p_bot p) = (r, st1)"
      using sw Cons.prems(1) by (simp add: sendWarning_world)
    let ?q = "exec suffix (answers (world (length (calls st)))) p"
    note A = answers_settle[OF su Cons.prems(3), of suffix "world (length (calls st))"]
    show ?thesis
    proof (cases r)
      case Returned
      have q: "p_bot ?q = st1" "p_tasks ?q = suspend st1 now rest" "p_alive ?q"
        using A sw' Returned by simp_all
      show ?thesis
        using True sw Returned Cons.IH[OF q]
        by (simp add: exec_append)
    next
      case Rejected
      have q: "p_bot ?q = st1" "p_tasks ?q = []" "\<not> p_alive ?q"
        using A sw' Rejected by simp_all
      show ?thesis
        using True sw Rejected q
        by (simp add: exec_append)
    qed
  qed
qed

lemma tick_answers_no_timer: "no_overlap suffix (tick_answers world suffix' now evs st) p"
proof (induction evs arbitrary: st p)
  case Nil
  show ?case by simp
next
  case (Cons ev rest)
  show ?case
    using Cons.IH
    by (auto simp: no_overlap_append answers_no_timer split: prod.splits completion.splits)
qed

lemma ticks_in_turn:
  assumes "p_bot p = st" and "p_tasks p = []" and "p_alive p"
  shows "p_bot (exec suffix (run_answers world suffix nows st) p) = run_ticks world suffix nows st
       \<and> p_tasks (exec suffix (run_answers world suffix nows st) p) = []
       \<and> no_overlap suffix (run_answers world suffix nows st) p"
  using assms
proof (induction nows arbitrary: st p)
  case Nil
  then show ?case by simp
next
  case (Cons now nows)
  let ?tl = "tick_loop world suffix now (events st) st"
  let ?tick = "TimerFires now # tick_answers world suffix now (events st) st"
  let ?q = "exec suffix ?tick p"
  let ?p1 = "step suffix (TimerFires now) p"
  have p1: "p_bot ?p1 = st" "p_tasks ?p1 = suspend st now (events st)" "p_alive ?p1"
    using Cons.prems by simp_all
  have one: "p_bot ?q = snd ?tl" "p_tasks ?q = []" "p_alive ?q = (fst ?tl = Returned)"
    using tick_alone[OF p1, of suffix world] by simp_all
  have no: "no_overlap suffix ?tick p"
    using Cons.prems(2) by (simp add: tick_answers_no_timer)
  obtain r st1 where tl: "?tl = (r, st1)" by (cases ?tl)
  show ?case
  proof (cases r)
    case Returned
    have q: "p_bot ?q = st1" "p_tasks ?q = []" "p_alive ?q"
      using one tl Returned by simp_all
    have ra: "run_answers world suffix (now # nows) st = ?tick @ run_answers world suffix nows st1"
      using tl Returned by (simp add: schedulerTick_def)
    have rt: "run_ticks world suffix (now # nows) st = run_ticks world suffix nows st1"
      using tl Returned by (simp add: schedulerTick_def)
    show ?thesis
      unfolding ra rt exec_append no_overlap_append
      using Cons.IH[OF q] no by simp
  next
    case Rejected
    have ra: "run_answers world suffix (now # nows) st = ?tick"
      using tl Rejected by (simp add: schedulerTick_def)
    have rt: "run_ticks world suffix (now # nows) st = st1"
      using tl Rejected by (simp add: schedulerTick_def)
    show ?thesis unfolding ra rt using one no tl by simp
  qed
qed

section \<open>A destination that cannot be resolved\<close>

lemma in_window_iff:
  "in_window now ev = (\<exists>ts. startsAt ev = DT ts \<and> 3570000 \<le> ts - now \<and> ts - now \<le> 3630000)"
  by (cases "startsAt ev") (auto simp: in_window_def)

lemma unresolved_tick_loop:
  assumes "\<forall>n. world n = Unresolved"
  shows "tick_loop world suffix now evs st =
           (Returned, st\<lparr>calls := calls st @ map (\<lambda>e. (key e, Unresolved)) (due st now evs)\<rparr>)"
proof (induction evs arbitrary: st)
  case Nil
  show ?case by (simp add: due_def)
next
  case (Cons ev rest)
  show ?case
  proof (cases "\<not> isWarned st (key ev) \<and> in_window now ev")
    case False
    then show ?thesis using Cons.IH[of st] by (auto simp: due_def)
  next
    case True
    let ?st1 = "st\<lparr>calls := calls st @ [(key ev, Unresolved)]\<rparr>"
    have sw: "sendWarning world suffix ev st = (Returned, ?st1)"
      using assms by (simp add: sendWarning_def)
    have "due ?st1 now rest = due st now rest" by (simp add: due_def isWarned_def)
    then show ?thesis using True sw Cons.IH[of ?st1] by (simp add: due_def)
  qed
qed

lemma unresolved_run_ticks:
  assumes "\<forall>n. world n = Unresolved"
  shows "notified (run_ticks world suffix nows st) = notified st
       \<and> state_file (run_ticks world suffix nows st) = state_file st
       \<and> posted (run_ticks world suffix nows st) = posted st
       \<and> events (run_ticks world suffix nows st) = events st"
proof (induction nows arbitrary: st)
  case Nil
  show ?case by simp
next
  case (Cons now nows)
  show ?case
    using Cons.IH[of "snd (schedulerTick world suffix now st)"]
    by (simp add: schedulerTick_def unresolved_tick_loop[OF assms])
qed

text \<open>
  C10. When the channel of a call is not a text channel, \<^verbatim>\<open>sendWarning\<close> returns with
  nothing changed but the trace: no text is delivered, the key is not marked, the state
  file is not written. While the destination stays unresolved this holds over any run
  of ticks, and the tick after the run calls \<^verbatim>\<open>sendWarning\<close> again for every event of
  the catalog that is not marked and is inside the window at that tick.
\<close>

theorem unresolved_destination:
  "(world (length (calls st)) = Unresolved \<longrightarrow>
      sendWarning world suffix ev st = (Returned, st\<lparr>calls := calls st @ [(key ev, Unresolved)]\<rparr>))
   \<and> ((\<forall>n. world n = Unresolved) \<longrightarrow>
        (let st1 = run_ticks world suffix nows st;
             st2 = snd (schedulerTick world suffix now st1)
         in notified st2 = notified st \<and> state_file st2 = state_file st \<and> posted st2 = posted st
            \<and> new_calls st1 st2 = map (\<lambda>e. (key e, Unresolved)) (due st now (events st))))"
proof (intro conjI impI)
  assume "world (length (calls st)) = Unresolved"
  then show "sendWarning world suffix ev st = (Returned, st\<lparr>calls := calls st @ [(key ev, Unresolved)]\<rparr>)"
    by (simp add: sendWarning_def)
next
  assume u: "\<forall>n. world n = Unresolved"
  let ?st1 = "run_ticks world suffix nows st"
  have keep: "notified ?st1 = notified st" "state_file ?st1 = state_file st"
    "posted ?st1 = posted st" "events ?st1 = events st"
    using unresolved_run_ticks[OF u, of suffix nows st] by simp_all
  have "due ?st1 now (events st) = due st now (events st)"
    by (simp add: due_def isWarned_def keep)
  then show "let st1 = run_ticks world suffix nows st;
             st2 = snd (schedulerTick world suffix now st1)
         in notified st2 = notified st \<and> state_file st2 = state_file st \<and> posted st2 = posted st
            \<and> new_calls st1 st2 = map (\<lambda>e. (key e, Unresolved)) (due st now (events st))"
    by (simp add: Let_def schedulerTick_def unresolved_tick_loop[OF u] keep new_calls_def)
qed

text \<open>The event of 14:00: unresolved at the tick of 13:00:00, called again at the tick
  of 13:00:30, the ledger still empty.\<close>

theorem unresolved_destination_witness:
  "sendWarning (\<lambda>n. Unresolved) ''Send march!'' ex_event ex_state
     = (Returned, ex_state\<lparr>calls := [(''ruins:2024-03-05T14:00:00.000Z'', Unresolved)]\<rparr>)
   \<and> notified (snd (schedulerTick (\<lambda>n. Unresolved) ''Send march!'' 1709643630000
        (run_ticks (\<lambda>n. Unresolved) ''Send march!'' [1709643600000] ex_state))) = []
   \<and> new_calls (run_ticks (\<lambda>n. Unresolved) ''Send march!'' [1709643600000] ex_state)
        (snd (schedulerTick (\<lambda>n. Unresolved) ''Send march!'' 1709643630000
          (run_ticks (\<lambda>n. Unresolved) ''Send march!'' [1709643600000] ex_state)))
       = [(''ruins:2024-03-05T14:00:00.000Z'', Unresolved)]"
  using unresolved_destination[of "\<lambda>n. Unresolved" ex_state "''Send march!''" ex_event
      "[1709643600000]" 1709643630000]
  by (simp add: Let_def due_def isWarned_def in_window_def ex_state_def ex_event_def)

section \<open>The warning window\<close>

lemma settled_tick_loop:
  assumes nr: "\<forall>n. world n = Unresolved \<or> world n = Delivered"
    and d: "distinct (map key evs)"
  shows "fst (tick_loop world suffix now evs st) = Returned
       \<and> (\<exists>new. calls (snd (tick_loop world suffix now evs st)) = calls st @ new
                 \<and> map fst new = map key (due st now evs) \<and> snd ` set new \<subseteq> range world)
       \<and> ((\<forall>n. world n = Delivered) \<longrightarrow>
            (\<forall>k. isWarned (snd (tick_loop world suffix now evs st)) k
                  = (isWarned st k \<or> k \<in> key ` set (due st now evs))))"
  using d
proof (induction evs arbitrary: st)
  case Nil
  show ?case by (simp add: due_def)
next
  case (Cons ev rest)
  then have dr: "distinct (map key rest)" and nk: "key ev \<notin> key ` set rest" by auto
  show ?case
  proof (cases "\<not> isWarned st (key ev) \<and> in_window now ev")
    case False
    then show ?thesis using Cons.IH[OF dr, of st] by (auto simp: due_def)
  next
    case True
    obtain r st1 where sw: "sendWarning world suffix ev st = (r, st1)"
      by (cases "sendWarning world suffix ev st")
    have r: "r = Returned" using sendWarning_fst[of world suffix ev st] nr sw by auto
    have c1: "calls st1 = calls st @ [(key ev, world (length (calls st)))]"
      using sendWarning_calls[of world suffix ev st] sw by simp
    have w1: "\<And>k. isWarned st1 k = (isWarned st k \<or> (k = key ev \<and> world (length (calls st)) = Delivered))"
      using isWarned_sendWarning[of world suffix ev st] sw by simp
    have other: "\<And>e. e \<in> set rest \<Longrightarrow> key e \<noteq> key ev" by (metis nk image_eqI)
    have due1: "due st1 now rest = due st now rest"
      unfolding due_def by (intro filter_cong refl) (simp add: w1 other)
    have due_all: "due st now (ev # rest) = ev # due st now rest"
      using True by (simp add: due_def)
    let ?st2 = "snd (tick_loop world suffix now rest st1)"
    have tl: "tick_loop world suffix now (ev # rest) st = tick_loop world suffix now rest st1"
      using True sw r by simp
    note IH = Cons.IH[OF dr, of st1]
    from IH obtain new where new: "calls ?st2 = calls st1 @ new"
      "map fst new = map key (due st1 now rest)" "snd ` set new \<subseteq> range world"
      by blast
    have a: "fst (tick_loop world suffix now (ev # rest) st) = Returned"
      using IH tl by simp
    have b: "\<exists>new. calls (snd (tick_loop world suffix now (ev # rest) st)) = calls st @ new
                 \<and> map fst new = map key (due st now (ev # rest)) \<and> snd ` set new \<subseteq> range world"
      apply (rule exI[of _ "(key ev, world (length (calls st))) # new"])
      using new c1 due1 due_all tl by simp
    have c: "(\<forall>n. world n = Delivered) \<longrightarrow>
            (\<forall>k. isWarned (snd (tick_loop world suffix now (ev # rest) st)) k
                  = (isWarned st k \<or> k \<in> key ` set (due st now (ev # rest))))"
    proof (intro impI allI)
      fix k assume ad: "\<forall>n. world n = Delivered"
      then have "isWarned ?st2 k = (isWarned st1 k \<or> k \<in> key ` set (due st1 now rest))"
        using IH by blast
      then show "isWarned (snd (tick_loop world suffix now (ev # rest) st)) k
                  = (isWarned st k \<or> k \<in> key ` set (due st now (ev # rest)))"
        using tl w1 due1 due_all ad by auto
    qed
    show ?thesis using a b c by blast
  qed
qed

lemma due_key_iff:
  assumes "distinct (map key evs)" and "ev \<in> set evs"
  shows "key ev \<in> key ` set (due st now evs) = (\<not> isWarned st (key ev) \<and> in_window now ev)"
proof -
  have "\<And>e. e \<in> set evs \<Longrightarrow> key e = key ev \<Longrightarrow> e = ev"
    using assms by (meson distinct_map inj_onD)
  then show ?thesis using assms(2) by (auto simp: due_def)
qed

lemma idle_tick_loop:
  "due st now evs = [] \<Longrightarrow> tick_loop world suffix now evs st = (Returned, st)"
  by (induction evs) (auto simp: due_def split: if_splits)

lemma delivered_tick_loop:
  assumes ad: "\<forall>n. world n = Delivered"
    and d: "distinct (map key evs)"
  shows "posted (snd (tick_loop world suffix now evs st))
           = posted st @ map (warning_text suffix) (due st now evs)
       \<and> (due st now evs \<noteq> [] \<longrightarrow>
            state_file (snd (tick_loop world suffix now evs st))
              = notified (snd (tick_loop world suffix now evs st)))"
  using d
proof (induction evs arbitrary: st)
  case Nil
  show ?case by (simp add: due_def)
next
  case (Cons ev rest)
  then have dr: "distinct (map key rest)" and nk: "key ev \<notin> key ` set rest" by auto
  show ?case
  proof (cases "\<not> isWarned st (key ev) \<and> in_window now ev")
    case False
    then show ?thesis using Cons.IH[OF dr, of st] by (auto simp: due_def)
  next
    case True
    let ?st1 = "snd (sendWarning world suffix ev st)"
    have r: "fst (sendWarning world suffix ev st) = Returned"
      using ad by (simp add: sendWarning_fst)
    have tl: "tick_loop world suffix now (ev # rest) st = tick_loop world suffix now rest ?st1"
      using True r by (cases "sendWarning world suffix ev st") simp
    have p1: "posted ?st1 = posted st @ [warning_text suffix ev]"
      using ad by (simp add: sendWarning_posted)
    have f1: "state_file ?st1 = notified ?st1"
      using ad by (simp add: sendWarning_state_file sendWarning_notified)
    have w1: "\<And>k. isWarned ?st1 k = (isWarned st k \<or> k = key ev)"
      using ad by (simp add: isWarned_sendWarning)
    have other: "\<And>e. e \<in> set rest \<Longrightarrow> key e \<noteq> key ev" by (metis nk image_eqI)
    have due1: "due ?st1 now rest = due st now rest"
      unfolding due_def by (intro filter_cong refl) (simp add: w1 other)
    have due_all: "due st now (ev # rest) = ev # due st now rest"
      using True by (simp add: due_def)
    note IH = Cons.IH[OF dr, of ?st1]
    have a: "posted (snd (tick_loop world suffix now (ev # rest) st))
           = posted st @ map (warning_text suffix) (due st now (ev # rest))"
      using IH tl p1 due1 due_all by simp
    have b: "state_file (snd (tick_loop world suffix now (ev # rest) st))
              = notified (snd (tick_loop world suffix now (ev # rest) st))"
    proof (cases "due ?st1 now rest = []")
      case True
      then show ?thesis using idle_tick_loop[of ?st1 now rest world suffix] tl f1 by simp
    next
      case False
      then show ?thesis using IH tl by simp
    qed
    show ?thesis using a b by simp
  qed
qed

text \<open>
  C2, for a tick that runs alone and to its end, which is the tick that
  \<^const>\<open>schedulerTick\<close> describes. In a tick that no other tick overlaps and in which no
  call rejects, over a catalog with distinct keys, the tick returns, and an event that is
  not marked when the tick starts gets its call of \<^verbatim>\<open>sendWarning\<close> in this tick exactly
  when its start lies 3570 to 3630 seconds (both included) after \<open>now\<close>. Where every
  call delivers, exactly then its call delivers and its key is marked; the texts posted
  in the tick are those of the events that were unmarked and inside the window, in the
  order of the catalog, the event among them exactly then; and its key is then marked
  in the state file too.
\<close>

theorem window_tick:
  assumes "\<forall>n. world n = Unresolved \<or> world n = Delivered"
    and "distinct (map key (events st))"
    and "ev \<in> set (events st)"
    and "\<not> isWarned st (key ev)"
  shows "let st' = snd (schedulerTick world suffix now st);
             inside = (\<exists>ts. startsAt ev = DT ts \<and> 3570000 \<le> ts - now \<and> ts - now \<le> 3630000)
         in fst (schedulerTick world suffix now st) = Returned
            \<and> (key ev \<in> fst ` set (new_calls st st') \<longleftrightarrow> inside)
            \<and> ((\<forall>n. world n = Delivered) \<longrightarrow>
                 ((key ev, Delivered) \<in> set (new_calls st st') \<longleftrightarrow> inside)
                 \<and> (isWarned st' (key ev) \<longleftrightarrow> inside)
                 \<and> (ev \<in> set (due st now (events st)) \<longleftrightarrow> inside)
                 \<and> posted st' = posted st @ map (warning_text suffix) (due st now (events st))
                 \<and> (inside \<longrightarrow> map_of (state_file st') (key ev) = Some True))"
proof -
  let ?st' = "snd (tick_loop world suffix now (events st) st)"
  note S = settled_tick_loop[OF assms(1,2), of suffix now st]
  from S obtain new where new: "calls ?st' = calls st @ new"
    "map fst new = map key (due st now (events st))" "snd ` set new \<subseteq> range world" by blast
  have ret: "fst (tick_loop world suffix now (events st) st) = Returned" using S by blast
  have nc: "new_calls st ?st' = new" by (simp add: new_calls_def new(1))
  have k: "key ev \<in> key ` set (due st now (events st)) = in_window now ev"
    using due_key_iff[OF assms(2,3), of st now] assms(4) by simp
  have m: "ev \<in> set (due st now (events st)) = in_window now ev"
    using assms(3,4) by (simp add: due_def)
  have "fst ` set new = key ` set (due st now (events st))"
    using new(2) by (metis set_map)
  then have a: "key ev \<in> fst ` set (new_calls st ?st') \<longleftrightarrow> in_window now ev"
    using nc k by simp
  have b: "(key ev, Delivered) \<in> set (new_calls st ?st') \<longleftrightarrow> in_window now ev"
    if ad: "\<forall>n. world n = Delivered"
  proof -
    have "\<And>c. c \<in> set new \<Longrightarrow> snd c = Delivered" using ad new(3) by auto
    then have "(key ev, Delivered) \<in> set new \<longleftrightarrow> key ev \<in> fst ` set new" by force
    then show ?thesis using a nc by simp
  qed
  have c: "isWarned ?st' (key ev) \<longleftrightarrow> in_window now ev" if ad: "\<forall>n. world n = Delivered"
  proof -
    from ad S have "isWarned ?st' (key ev) = (isWarned st (key ev) \<or> key ev \<in> key ` set (due st now (events st)))"
      by blast
    then show ?thesis using k assms(4) by simp
  qed
  have p: "posted ?st' = posted st @ map (warning_text suffix) (due st now (events st))"
    if ad: "\<forall>n. world n = Delivered"
    using delivered_tick_loop[OF ad assms(2), of suffix now st] by simp
  have f: "map_of (state_file ?st') (key ev) = Some True"
    if ad: "\<forall>n. world n = Delivered" and i: "in_window now ev"
  proof -
    have "due st now (events st) \<noteq> []" using m i by auto
    then have "state_file ?st' = notified ?st'"
      using delivered_tick_loop[OF ad assms(2), of suffix now st] by simp
    then show ?thesis using c[OF ad] i by (simp add: isWarned_def)
  qed
  show ?thesis
    unfolding Let_def schedulerTick_def in_window_iff[symmetric]
    using ret a b c m p f by blast
qed

text \<open>
  C2 as stated fails where a call rejects. Both events of the catalog start 3600 seconds
  after the tick of 13:00:00 and neither is marked. The \<^verbatim>\<open>send\<close> for the first one
  rejects, the tick ends there, and the second event gets no call in this tick.
\<close>

theorem rejected_send_counterexample:
  "schedulerTick world_reject_once ''Send march!'' 1709643600000 (ex_state\<lparr>events := ex_two\<rparr>)
     = (Rejected, ex_state\<lparr>events := ex_two,
                            calls := [(''ruins:2024-03-05T14:00:00.000Z'', SendRejects)]\<rparr>)
   \<and> ex_two ! 1 = \<lparr>ev_type = ''altar'', startsAt = DT (1709643600000 + 3600 * 1000),
                    key = ''altar:2024-03-05T14:00:00.000Z''\<rparr>
   \<and> \<not> isWarned (ex_state\<lparr>events := ex_two\<rparr>) ''altar:2024-03-05T14:00:00.000Z''"
  by (simp add: schedulerTick_def sendWarning_def isWarned_def in_window_def ex_state_def ex_two_def
      world_reject_once_def Let_def)

text \<open>The event of 14:00 at three ticks that deliver: at 13:00:00, 3600 seconds ahead,
  it is warned, the text posted and the key saved; at 12:58:20, 3700 seconds ahead, and
  at 13:01:40, 3500 seconds ahead, it is not warned and nothing is posted.\<close>

theorem window_tick_witness:
  "isWarned (snd (schedulerTick (\<lambda>n. Delivered) ''Send march!'' 1709643600000 ex_state))
     ''ruins:2024-03-05T14:00:00.000Z''
   \<and> posted (snd (schedulerTick (\<lambda>n. Delivered) ''Send march!'' 1709643600000 ex_state))
       = [''@everyone Ruins in 1 hour! Send march!'']
   \<and> map_of (state_file (snd (schedulerTick (\<lambda>n. Delivered) ''Send march!'' 1709643600000 ex_state)))
       ''ruins:2024-03-05T14:00:00.000Z'' = Some True
   \<and> \<not> isWarned (snd (schedulerTick (\<lambda>n. Delivered) ''Send march!'' 1709643500000 ex_state))
       ''ruins:2024-03-05T14:00:00.000Z''
   \<and> posted (snd (schedulerTick (\<lambda>n. Delivered) ''Send march!'' 1709643500000 ex_state)) = []
   \<and> \<not> isWarned (snd (schedulerTick (\<lambda>n. Delivered) ''Send march!'' 1709643700000 ex_state))
       ''ruins:2024-03-05T14:00:00.000Z''
   \<and> posted (snd (schedulerTick (\<lambda>n. Delivered) ''Send march!'' 1709643700000 ex_state)) = []"
  using window_tick[of "\<lambda>n. Delivered" ex_state ex_event "''Send march!''" 1709643600000]
    window_tick[of "\<lambda>n. Delivered" ex_state ex_event "''Send march!''" 1709643500000]
    window_tick[of "\<lambda>n. Delivered" ex_state ex_event "''Send march!''" 1709643700000]
  by (simp add: ex_state_def ex_event_def isWarned_def Let_def due_def in_window_def warning_text_def)

section \<open>The calendar: timestamps and calendar fields are inverse to each other\<close>

lemma div_step:
  fixes y k :: int
  assumes "0 < k"
  shows "y div k = (y - 1) div k + (if y mod k = 0 then 1 else 0)"
proof (cases "y mod k = 0")
  case True
  have "y = k * (y div k) + y mod k" by simp
  then have "y - 1 = k * (y div k - 1) + (k - 1)" using True by (simp add: algebra_simps)
  then have "(y - 1) div k = y div k - 1"
    using assms by (intro int_div_pos_eq[where r = "k - 1"]) simp_all
  then show ?thesis using True by simp
next
  case False
  have r: "0 \<le> y mod k" "y mod k < k" using assms by simp_all
  have "y = k * (y div k) + y mod k" by simp
  then have "y - 1 = k * (y div k) + (y mod k - 1)" by simp
  then have "(y - 1) div k = y div k"
    using assms r False by (intro int_div_pos_eq[where r = "y mod k - 1"]) simp_all
  then show ?thesis using False by simp
qed

lemma mod_mult_0:
  fixes y :: int
  assumes "y mod (a * b) = 0"
  shows "y mod a = 0"
  using assms by (metis dvd_mult_left mod_0_imp_dvd dvd_imp_mod_0)

lemma leap_step_aux:
  fixes y p4 q4 p100 q100 p400 q400 :: int
  assumes "p4 = q4 + (if m4 then 1 else 0)" "p100 = q100 + (if m100 then 1 else 0)"
    "p400 = q400 + (if m400 then 1 else 0)" "m100 \<longrightarrow> m4" "m400 \<longrightarrow> m100"
  shows "365 * y + p4 - p100 + p400
       = 365 * (y - 1) + q4 - q100 + q400 + (if m4 \<and> (\<not> m100 \<or> m400) then 366 else 365)"
  using assms by (cases m4; cases m100; cases m400) simp_all

lemma days_before_year_Suc: "days_before_year (y + 1) = days_before_year y + year_length y"
proof -
  have a: "y div 4 = (y - 1) div 4 + (if y mod 4 = 0 then 1 else 0)" by (rule div_step) simp
  have b: "y div 100 = (y - 1) div 100 + (if y mod 100 = 0 then 1 else 0)" by (rule div_step) simp
  have c: "y div 400 = (y - 1) div 400 + (if y mod 400 = 0 then 1 else 0)" by (rule div_step) simp
  have d: "y mod 100 = 0 \<longrightarrow> y mod 4 = 0" using mod_mult_0[of y 4 25] by simp
  have e: "y mod 400 = 0 \<longrightarrow> y mod 100 = 0" using mod_mult_0[of y 100 4] by simp
  have m: "365 * y + y div 4 - y div 100 + y div 400
       = 365 * (y - 1) + (y - 1) div 4 - (y - 1) div 100 + (y - 1) div 400
         + (if y mod 4 = 0 \<and> (\<not> y mod 100 = 0 \<or> y mod 400 = 0) then 366 else 365)"
    by (rule leap_step_aux[OF a b c d e])
  have l: "days_before_year (y + 1) = 365 * y + y div 4 - y div 100 + y div 400"
    unfolding days_before_year_def by (simp only: add_diff_cancel_right')
  have r: "days_before_year y + year_length y
       = 365 * (y - 1) + (y - 1) div 4 - (y - 1) div 100 + (y - 1) div 400
         + (if y mod 4 = 0 \<and> (\<not> y mod 100 = 0 \<or> y mod 400 = 0) then 366 else 365)"
    unfolding days_before_year_def year_length_def isLeapYear_def by (simp only: not_not)
  show ?thesis unfolding l r by (rule m)
qed

lemma year_length_pos: "0 < year_length y"
  by (simp add: year_length_def)

lemma days_before_year_mono: "y \<le> y' \<Longrightarrow> days_before_year y \<le> days_before_year y'"
proof (induction y' rule: int_ge_induct)
  case base
  show ?case by simp
next
  case (step i)
  then show ?case using days_before_year_Suc[of i] year_length_pos[of i] by linarith
qed

lemma year_unique:
  assumes "days_before_year y + doy = days_before_year y' + doy'"
    and "0 \<le> doy" "doy < year_length y" "0 \<le> doy'" "doy' < year_length y'"
  shows "y = y' \<and> doy = doy'"
proof -
  have "\<not> y < y'"
  proof
    assume "y < y'"
    then have "days_before_year (y + 1) \<le> days_before_year y'" by (intro days_before_year_mono) simp
    then show False using assms days_before_year_Suc[of y] by linarith
  qed
  moreover have "\<not> y' < y"
  proof
    assume "y' < y"
    then have "days_before_year (y' + 1) \<le> days_before_year y" by (intro days_before_year_mono) simp
    then show False using assms days_before_year_Suc[of y'] by linarith
  qed
  ultimately have "y = y'" by simp
  then show ?thesis using assms(1) by simp
qed


lemma year_of_days_aux:
  fixes N a r q r' b r2 c r3 q1 r4 e doy :: int
  assumes "N = 146097 * a + r" "0 \<le> r" "r < 146097"
    "r = 36524 * q + r'" "0 \<le> r'" "r' < 36524" "b = min 3 q" "r2 = r - b * 36524"
    "r2 = 1461 * c + r3" "0 \<le> r3" "r3 < 1461"
    "r3 = 365 * q1 + r4" "0 \<le> r4" "r4 < 365" "e = min 3 q1" "doy = r3 - e * 365"
  shows "146097 * a + 36524 * b + 1461 * c + 365 * e + doy = N"
    and "0 \<le> b" "b \<le> 3" "0 \<le> c" "c \<le> 24" "0 \<le> e" "e \<le> 3" "0 \<le> doy" "doy \<le> 365"
    and "doy = 365 \<longrightarrow> e = 3 \<and> (c = 24 \<longrightarrow> b = 3)"
proof -
  have q: "0 \<le> q" "q \<le> 4" using assms(2-6) by linarith+
  have q1: "0 \<le> q1" "q1 \<le> 4" using assms(10-14) by linarith+
  show b: "0 \<le> b" "b \<le> 3" using q assms(7) by simp_all
  show e: "0 \<le> e" "e \<le> 3" using q1 assms(15) by simp_all
  have r2: "0 \<le> r2" "r2 \<le> 36524" "b < 3 \<longrightarrow> r2 < 36524"
    using q assms(2-8) by (auto simp: min_def split: if_splits)
  show c: "0 \<le> c" "c \<le> 24" using r2 assms(9-11) by linarith+
  show "146097 * a + 36524 * b + 1461 * c + 365 * e + doy = N"
    using assms(1,8,9,16) by linarith
  show d: "0 \<le> doy" "doy \<le> 365"
    using q1 assms(11-16) by (auto simp: min_def split: if_splits)
  show "doy = 365 \<longrightarrow> e = 3 \<and> (c = 24 \<longrightarrow> b = 3)"
    using q1 r2 b assms(9-16) by (auto simp: min_def split: if_splits)
qed

lemma days_before_year_decomp:
  fixes a b c e :: int
  assumes "0 \<le> b" "b \<le> 3" "0 \<le> c" "c \<le> 24" "0 \<le> e" "e \<le> 3"
  shows "days_before_year (400 * a + 100 * b + 4 * c + e + 1)
       = 146097 * a + 36524 * b + 1461 * c + 365 * e"
proof -
  let ?x = "400 * a + 100 * b + 4 * c + e"
  have d4: "?x div 4 = 100 * a + 25 * b + c"
    using assms by (intro int_div_pos_eq[where r = e]) simp_all
  have d100: "?x div 100 = 4 * a + b"
    using assms by (intro int_div_pos_eq[where r = "4 * c + e"]) simp_all
  have d400: "?x div 400 = a"
    using assms by (intro int_div_pos_eq[where r = "100 * b + 4 * c + e"]) simp_all
  have "days_before_year (?x + 1) = 365 * ?x + ?x div 4 - ?x div 100 + ?x div 400"
    unfolding days_before_year_def by (simp only: add_diff_cancel_right')
  also have "\<dots> = 365 * ?x + (100 * a + 25 * b + c) - (4 * a + b) + a"
    by (simp only: d4 d100 d400)
  also have "\<dots> = 146097 * a + 36524 * b + 1461 * c + 365 * e" by simp
  finally show ?thesis .
qed

lemma leap_decomp:
  fixes a b c :: int
  assumes "0 \<le> b" "b \<le> 3" "0 \<le> c" "c \<le> 24" "c = 24 \<longrightarrow> b = 3"
  shows "isLeapYear (400 * a + 100 * b + 4 * c + 3 + 1)"
proof -
  let ?y = "400 * a + 100 * b + 4 * c + 3 + 1"
  have m4: "?y mod 4 = 0"
    by (intro int_mod_pos_eq[where q = "100 * a + 25 * b + c + 1"]) simp_all
  show ?thesis
  proof (cases "c = 24")
    case True
    then have "b = 3" using assms by simp
    then have "?y mod 400 = 0" using True
      by (intro int_mod_pos_eq[where q = "a + 1"]) simp_all
    then show ?thesis unfolding isLeapYear_def using m4 by blast
  next
    case False
    then have "?y mod 100 = 4 * c + 4" using assms
      by (intro int_mod_pos_eq[where q = "4 * a + b"]) simp_all
    then have "?y mod 100 \<noteq> 0" using assms by simp
    then show ?thesis unfolding isLeapYear_def using m4 by blast
  qed
qed

lemma year_of_days_sound:
  assumes "year_of_days n = (y, doy)"
  shows "days_before_year y + doy = n + 719162 \<and> 0 \<le> doy \<and> doy < year_length y"
proof -
  define N where "N = n + 719162"
  define a where "a = N div 146097"
  define r where "r = N mod 146097"
  define q where "q = r div 36524"
  define r' where "r' = r mod 36524"
  define b where "b = min 3 q"
  define r2 where "r2 = r - b * 36524"
  define c where "c = r2 div 1461"
  define r3 where "r3 = r2 mod 1461"
  define q1 where "q1 = r3 div 365"
  define r4 where "r4 = r3 mod 365"
  define e where "e = min 3 q1"
  have y: "y = 400 * a + 100 * b + 4 * c + e + 1" and doy: "doy = r3 - e * 365"
    using assms unfolding year_of_days_def Let_def
    by (simp_all only: N_def a_def r_def q_def b_def r2_def c_def r3_def q1_def e_def prod.inject)
  have h1: "N = 146097 * a + r" "0 \<le> r" "r < 146097" by (simp_all add: a_def r_def)
  have h2: "r = 36524 * q + r'" "0 \<le> r'" "r' < 36524" by (simp_all add: q_def r'_def)
  have h3: "r2 = 1461 * c + r3" "0 \<le> r3" "r3 < 1461" by (simp_all add: c_def r3_def)
  have h4: "r3 = 365 * q1 + r4" "0 \<le> r4" "r4 < 365" by (simp_all add: q1_def r4_def)
  note A = year_of_days_aux[OF h1 h2 b_def r2_def h3 h4 e_def doy]
  have dby: "days_before_year y = 146097 * a + 36524 * b + 1461 * c + 365 * e"
    unfolding y using A(2-7) by (rule days_before_year_decomp)
  have "doy < year_length y"
  proof (cases "doy = 365")
    case True
    then have e3: "e = 3" and cb: "c = 24 \<longrightarrow> b = 3" using A(10) by simp_all
    have "isLeapYear y" unfolding y e3 using A(2-5) cb by (rule leap_decomp)
    then show ?thesis using True by (simp add: year_length_def)
  next
    case False
    then have "doy < 365" using A(9) by simp
    then show ?thesis by (simp add: year_length_def)
  qed
  then show ?thesis using dby A(1) A(8) by (simp add: N_def)
qed

lemma year_of_days_complete:
  assumes "0 \<le> doy" "doy < year_length y"
  shows "year_of_days (days_before_year y + doy - 719162) = (y, doy)"
proof -
  obtain y' doy' where yd: "year_of_days (days_before_year y + doy - 719162) = (y', doy')"
    by (cases "year_of_days (days_before_year y + doy - 719162)")
  from year_of_days_sound[OF yd]
  have "days_before_year y' + doy' = days_before_year y + doy" "0 \<le> doy'" "doy' < year_length y'"
    by simp_all
  then have "y' = y \<and> doy' = doy" using assms by (intro year_unique) simp_all
  then show ?thesis using yd by simp
qed


lemma month_cases:
  fixes m :: int
  assumes "1 \<le> m" "m \<le> 12"
  obtains "m = 1" | "m = 2" | "m = 3" | "m = 4" | "m = 5" | "m = 6"
    | "m = 7" | "m = 8" | "m = 9" | "m = 10" | "m = 11" | "m = 12"
proof -
  have u: "[1..12] = [1, 2, 3, 4, 5, 6, 7, 8, 9, 10, 11, 12 :: int]" by code_simp
  have "m \<in> set [1..12]" using assms by simp
  then have "m \<in> set [1, 2, 3, 4, 5, 6, 7, 8, 9, 10, 11, 12]" unfolding u .
  then show thesis using that by auto
qed

lemma daysInMonth_month_length:
  assumes "1 \<le> m" "m \<le> 12"
  shows "daysInMonth y m = month_length (isLeapYear y) m"
  using assms by (cases m rule: month_cases) (simp_all add: daysInMonth_def month_length_def)

lemma month_of_doy_sound:
  assumes "0 \<le> doy" "doy < (if leap then 366 else 365)"
  shows "1 \<le> month_of_doy leap doy \<and> month_of_doy leap doy \<le> 12
       \<and> days_before_month leap (month_of_doy leap doy) \<le> doy
       \<and> doy < days_before_month leap (month_of_doy leap doy)
                + month_length leap (month_of_doy leap doy)"
proof (cases leap)
  case True
  then have "doy < 366" using assms by simp
  with assms(1) have "(0 \<le> doy \<and> doy < 31)
      \<or> (31 \<le> doy \<and> doy < 60)
      \<or> (60 \<le> doy \<and> doy < 91)
      \<or> (91 \<le> doy \<and> doy < 121)
      \<or> (121 \<le> doy \<and> doy < 152)
      \<or> (152 \<le> doy \<and> doy < 182)
      \<or> (182 \<le> doy \<and> doy < 213)
      \<or> (213 \<le> doy \<and> doy < 244)
      \<or> (244 \<le> doy \<and> doy < 274)
      \<or> (274 \<le> doy \<and> doy < 305)
      \<or> (305 \<le> doy \<and> doy < 335)
      \<or> (335 \<le> doy \<and> doy < 366)"
    by linarith
  then show ?thesis
    by (elim disjE conjE) (simp_all add: True month_of_doy_def days_before_month_def month_length_def)
next
  case False
  then have "doy < 365" using assms by simp
  with assms(1) have "(0 \<le> doy \<and> doy < 31)
      \<or> (31 \<le> doy \<and> doy < 59)
      \<or> (59 \<le> doy \<and> doy < 90)
      \<or> (90 \<le> doy \<and> doy < 120)
      \<or> (120 \<le> doy \<and> doy < 151)
      \<or> (151 \<le> doy \<and> doy < 181)
      \<or> (181 \<le> doy \<and> doy < 212)
      \<or> (212 \<le> doy \<and> doy < 243)
      \<or> (243 \<le> doy \<and> doy < 273)
      \<or> (273 \<le> doy \<and> doy < 304)
      \<or> (304 \<le> doy \<and> doy < 334)
      \<or> (334 \<le> doy \<and> doy < 365)"
    by linarith
  then show ?thesis
    by (elim disjE conjE) (simp_all add: False month_of_doy_def days_before_month_def month_length_def)
qed

lemma month_of_doy_complete:
  assumes "1 \<le> m" "m \<le> 12" "1 \<le> d" "d \<le> month_length leap m"
  shows "month_of_doy leap (days_before_month leap m + d - 1) = m
       \<and> 0 \<le> days_before_month leap m + d - 1
       \<and> days_before_month leap m + d - 1 < (if leap then 366 else 365)"
  using assms(1,2)
proof (cases m rule: month_cases)
qed (use assms(3,4) in \<open>auto simp: month_of_doy_def days_before_month_def month_length_def split: if_splits\<close>)


lemma days_from_civil_simple:
  assumes "1 \<le> m" "m \<le> 12"
  shows "days_from_civil y m d
       = days_before_year y + days_before_month (isLeapYear y) m + (d - 1) - 719162"
  using assms by (cases m rule: month_cases) (simp_all add: days_from_civil_def)

lemma days_from_civil_add: "days_from_civil y m (d + k) = days_from_civil y m d + k"
  by (simp add: days_from_civil_def Let_def)

lemma time_of_day_aux:
  fixes r h r1 mi r2 s ms :: int
  assumes "r = 3600000 * h + r1" "0 \<le> r1" "r1 < 3600000"
    "r1 = 60000 * mi + r2" "0 \<le> r2" "r2 < 60000"
    "r2 = 1000 * s + ms" "0 \<le> ms" "ms < 1000" "0 \<le> r" "r < 86400000"
  shows "h * 3600000 + mi * 60000 + s * 1000 + ms = r"
    and "0 \<le> h" "h \<le> 23" "0 \<le> mi" "mi \<le> 59" "0 \<le> s" "s \<le> 59"
  using assms by linarith+

lemma time_of_day:
  fixes r :: int
  assumes "0 \<le> r" "r < 86400000"
  shows "(r div 3600000) * 3600000 + ((r mod 3600000) div 60000) * 60000
           + ((r mod 60000) div 1000) * 1000 + r mod 1000 = r"
    and "0 \<le> r div 3600000" "r div 3600000 \<le> 23"
    and "0 \<le> (r mod 3600000) div 60000" "(r mod 3600000) div 60000 \<le> 59"
    and "0 \<le> (r mod 60000) div 1000" "(r mod 60000) div 1000 \<le> 59"
    and "0 \<le> r mod 1000" "r mod 1000 \<le> 999"
proof -
  define h where "h = r div 3600000"
  define r1 where "r1 = r mod 3600000"
  define mi where "mi = r1 div 60000"
  define r2 where "r2 = r1 mod 60000"
  define s where "s = r2 div 1000"
  define ms where "ms = r2 mod 1000"
  have e2: "r mod 60000 = r2" unfolding r2_def r1_def by (rule mod_mod_cancel[symmetric]) simp
  have e3: "r mod 1000 = ms" unfolding ms_def e2[symmetric] by (rule mod_mod_cancel[symmetric]) simp
  have a: "r = 3600000 * h + r1" "0 \<le> r1" "r1 < 3600000" by (simp_all add: h_def r1_def)
  have b: "r1 = 60000 * mi + r2" "0 \<le> r2" "r2 < 60000" by (simp_all add: mi_def r2_def)
  have c: "r2 = 1000 * s + ms" "0 \<le> ms" "ms < 1000" by (simp_all add: s_def ms_def)
  note T = time_of_day_aux[OF a b c assms]
  show "(r div 3600000) * 3600000 + ((r mod 3600000) div 60000) * 60000
           + ((r mod 60000) div 1000) * 1000 + r mod 1000 = r"
    unfolding e3 e2 unfolding h_def[symmetric] r1_def[symmetric] unfolding mi_def[symmetric]
      s_def[symmetric] by (rule T(1))
  show "0 \<le> r div 3600000" "r div 3600000 \<le> 23" using T(2,3) by (simp_all only: h_def)
  show "0 \<le> (r mod 3600000) div 60000" "(r mod 3600000) div 60000 \<le> 59"
    using T(4,5) by (simp_all only: mi_def r1_def)
  show "0 \<le> (r mod 60000) div 1000" "(r mod 60000) div 1000 \<le> 59"
    using T(6,7) by (simp_all only: s_def e2)
  show "0 \<le> r mod 1000" "r mod 1000 \<le> 999" using c(2,3) by (simp_all only: e3)
qed


lemma tsToObj_props:
  "objToTS (tsToObj ts) = ts \<and> valid_comps (tsToObj ts)"
proof -
  define n where "n = ts div 86400000"
  define r where "r = ts mod 86400000"
  obtain y doy where yd: "year_of_days n = (y, doy)" by (cases "year_of_days n")
  define m where "m = month_of_doy (isLeapYear y) doy"
  define h where "h = r div 3600000"
  define mi where "mi = (r mod 3600000) div 60000"
  define sec where "sec = (r mod 60000) div 1000"
  define ms where "ms = r mod 1000"
  have c: "tsToObj ts = \<lparr>c_year = y, c_month = m,
              c_day = doy - days_before_month (isLeapYear y) m + 1,
              c_hour = h, c_minute = mi, c_second = sec, c_millisecond = ms\<rparr>"
    unfolding tsToObj_def Let_def n_def[symmetric] r_def[symmetric] yd
    by (simp only: prod.case m_def h_def mi_def sec_def ms_def)
  have r: "0 \<le> r" "r < 86400000" by (simp_all add: r_def)
  have ts: "ts = n * 86400000 + r" by (simp add: n_def r_def)
  note T = time_of_day[OF r, folded h_def mi_def sec_def ms_def]
  from year_of_days_sound[OF yd]
  have Y: "days_before_year y + doy = n + 719162" "0 \<le> doy" "doy < (if isLeapYear y then 366 else 365)"
    by (simp_all add: year_length_def)
  note M = month_of_doy_sound[OF Y(2,3), folded m_def]
  have dfc: "days_from_civil y m (doy - days_before_month (isLeapYear y) m + 1) = n"
    using M Y(1) by (simp add: days_from_civil_simple)
  have "objToTS (tsToObj ts) = ((n * 24 + h) * 60 + mi) * 60000 + sec * 1000 + ms"
    by (simp add: c objToTS_def dfc)
  also have "\<dots> = n * 86400000 + (h * 3600000 + mi * 60000 + sec * 1000 + ms)" by simp
  also have "\<dots> = ts" using T(1) ts by simp
  finally have a: "objToTS (tsToObj ts) = ts" .
  have dim: "daysInMonth y m = month_length (isLeapYear y) m"
    using M by (simp add: daysInMonth_month_length)
  have b: "valid_comps (tsToObj ts)"
    unfolding c valid_comps_def using M T(2-9) dim by simp
  show ?thesis using a b by simp
qed

lemma objToTS_tsToObj [simp]: "objToTS (tsToObj ts) = ts"
  using tsToObj_props by simp

lemma valid_tsToObj: "valid_comps (tsToObj ts)"
  using tsToObj_props by simp

lemma tsToObj_objToTS:
  assumes "valid_comps c"
  shows "tsToObj (objToTS c) = c"
proof -
  define y where "y = c_year c"
  define m where "m = c_month c"
  define d where "d = c_day c"
  define t where "t = c_hour c * 3600000 + c_minute c * 60000 + c_second c * 1000 + c_millisecond c"
  define doy where "doy = days_before_month (isLeapYear y) m + d - 1"
  define n where "n = days_before_year y + doy - 719162"
  have v: "1 \<le> m" "m \<le> 12" "1 \<le> d" "d \<le> daysInMonth y m"
    "0 \<le> c_hour c" "c_hour c \<le> 23" "0 \<le> c_minute c" "c_minute c \<le> 59"
    "0 \<le> c_second c" "c_second c \<le> 59" "0 \<le> c_millisecond c" "c_millisecond c \<le> 999"
    using assms by (simp_all add: valid_comps_def y_def m_def d_def)
  have d2: "d \<le> month_length (isLeapYear y) m" using v by (simp add: daysInMonth_month_length)
  note M = month_of_doy_complete[OF v(1,2,3) d2, folded doy_def]
  have t: "0 \<le> t" "t < 86400000" using v by (simp_all add: t_def)
  have ts: "objToTS c = 86400000 * n + t"
    using v by (simp add: objToTS_def days_from_civil_simple n_def doy_def t_def y_def m_def d_def)
  have dv: "objToTS c div 86400000 = n" using ts t by (rule int_div_pos_eq)
  have md: "objToTS c mod 86400000 = t" using ts t by (rule int_mod_pos_eq)
  have yd: "year_of_days n = (y, doy)"
    unfolding n_def using M by (intro year_of_days_complete) (simp_all add: year_length_def)
  have h: "t div 3600000 = c_hour c"
    using v by (intro int_div_pos_eq[where r = "c_minute c * 60000 + c_second c * 1000 + c_millisecond c"])
      (simp_all add: t_def)
  have r1: "t mod 3600000 = c_minute c * 60000 + c_second c * 1000 + c_millisecond c"
    using v by (intro int_mod_pos_eq[where q = "c_hour c"]) (simp_all add: t_def)
  have mi: "(t mod 3600000) div 60000 = c_minute c"
    unfolding r1 using v by (intro int_div_pos_eq[where r = "c_second c * 1000 + c_millisecond c"]) simp_all
  have r2: "t mod 60000 = c_second c * 1000 + c_millisecond c"
    using v by (intro int_mod_pos_eq[where q = "c_hour c * 60 + c_minute c"]) (simp_all add: t_def)
  have sec: "(t mod 60000) div 1000 = c_second c"
    unfolding r2 using v by (intro int_div_pos_eq[where r = "c_millisecond c"]) simp_all
  have ms: "t mod 1000 = c_millisecond c"
    using v by (intro int_mod_pos_eq[where q = "c_hour c * 3600 + c_minute c * 60 + c_second c"])
      (simp_all add: t_def)
  have "tsToObj (objToTS c) = \<lparr>c_year = y, c_month = m, c_day = d, c_hour = c_hour c,
         c_minute = c_minute c, c_second = c_second c, c_millisecond = c_millisecond c\<rparr>"
    unfolding tsToObj_def Let_def dv md yd using M
    by (simp only: prod.case h mi sec ms) (simp add: doy_def)
  then show ?thesis by (simp add: y_def m_def d_def)
qed

section \<open>Adding durations\<close>

lemma objToTS_add_days:
  "objToTS (c\<lparr>c_day := c_day c + k\<rparr>) = objToTS c + k * 86400000"
  by (simp add: objToTS_def days_from_civil_add)

lemma plus_ts_no_calendar:
  assumes "d_years dur = 0" "d_months dur = 0"
  shows "plus_ts ts dur = ts + d_days dur * 86400000 + (d_hours dur * 60 + d_minutes dur) * 60000"
proof -
  let ?c = "tsToObj ts"
  have "c_day ?c \<le> daysInMonth (c_year ?c) (c_month ?c)"
    using valid_tsToObj[of ts] by (simp add: valid_comps_def)
  then have m: "min (c_day ?c) (daysInMonth (c_year ?c) (c_month ?c)) = c_day ?c" by simp
  have "?c\<lparr>c_year := c_year ?c, c_month := c_month ?c, c_day := c_day ?c + d_days dur\<rparr>
        = ?c\<lparr>c_day := c_day ?c + d_days dur\<rparr>" by simp
  then show ?thesis
    unfolding plus_ts_def Let_def assms by (simp only: add_0_right m objToTS_add_days objToTS_tsToObj)
qed

lemma minus_five_minutes: "minus_dt (DT now) five_minutes = DT (now - 300000)"
  by (simp add: minus_dt_def negate_def five_minutes_def no_duration_def plus_ts_no_calendar)

lemma minus_fourteen_days: "minus_dt (DT now) fourteen_days = DT (now - 1209600000)"
  by (simp add: minus_dt_def negate_def fourteen_days_def no_duration_def plus_ts_no_calendar)

lemma minus_one_hour: "minus_dt (DT ts) one_hour = DT (ts - 3600000)"
  by (simp add: minus_dt_def negate_def one_hour_def no_duration_def plus_ts_no_calendar)

lemma plus_seven_days: "plus_dt (DT now) seven_days = DT (now + 604800000)"
  by (simp add: seven_days_def no_duration_def plus_ts_no_calendar)

lemma daysInMonth_ge_28:
  assumes "1 \<le> m" "m \<le> 12"
  shows "28 \<le> daysInMonth y m"
  using assms by (cases m rule: month_cases) (simp_all add: daysInMonth_def)

lemma plus_one_year:
  assumes "valid_comps c"
  shows "tsToObj (plus_ts (objToTS c) one_year)
       = c\<lparr>c_year := c_year c + 1,
            c_day := min (c_day c) (daysInMonth (c_year c + 1) (c_month c))\<rparr>"
proof -
  let ?c' = "c\<lparr>c_year := c_year c + 1, c_day := min (c_day c) (daysInMonth (c_year c + 1) (c_month c))\<rparr>"
  have v: "1 \<le> c_month c" "c_month c \<le> 12" "1 \<le> c_day c" using assms by (simp_all add: valid_comps_def)
  have "28 \<le> daysInMonth (c_year c + 1) (c_month c)" using v by (intro daysInMonth_ge_28)
  then have v': "valid_comps ?c'" using assms by (simp add: valid_comps_def)
  have "plus_ts (objToTS c) one_year = objToTS ?c'"
    by (simp add: plus_ts_def Let_def one_year_def no_duration_def tsToObj_objToTS[OF assms])
  then show ?thesis using tsToObj_objToTS[OF v'] by simp
qed

lemma match_date_nonempty: "match_date s = Some r \<Longrightarrow> s \<noteq> []"
  by (auto simp: match_date_def)

section \<open>Year inference\<close>

lemma objToTS_hour_24:
  "objToTS \<lparr>c_year = y, c_month = m, c_day = d, c_hour = 24, c_minute = 0,
            c_second = 0, c_millisecond = 0\<rparr>
     = objToTS \<lparr>c_year = y, c_month = m, c_day = d, c_hour = 0, c_minute = 0,
                c_second = 0, c_millisecond = 0\<rparr> + 86400000"
  by (simp add: objToTS_def)

text \<open>
  C3, for the lines that name a real date. For a line of the shape \<^verbatim>\<open>D.M. H:MM\<close> (the
  regular expression matches the normalized line), the parser returns a date: the
  candidate built from the fields with the year of the clock, moved on by
  \<^verbatim>\<open>plus({years: 1})\<close> exactly when the candidate lies more than five minutes (300000 ms)
  before the clock reading, and unchanged otherwise. Where the fields name a real date
  with an hour up to 23, the result has the year of the clock plus one in the first case
  and the year of the clock in the second, with the month, hour and minute of the line,
  and the day of the line (in the moved date: the day cut down to the length of that
  month in the next year, which changes 29 February only). The only other candidates
  that are dates have hour 24 and minute 0, and are the midnight that ends the day
  \<^verbatim>\<open>D.M.\<close> of the year of the clock.
\<close>

theorem year_inference:
  assumes "match_date (normalizeLine line) = Some (d, mth, h, mi)"
  shows "let y = c_year (tsToObj now);
             cand = fromObject y mth d h mi;
             late = js_lt (toMillis cand) (Some (now - 300000))
         in parseDateLineUTC now line = Some (if late then plus_dt cand one_year else cand)
            \<and> (cand \<noteq> InvalidDT \<and> h \<le> 23 \<longrightarrow>
                 (\<exists>ts. parseDateLineUTC now line = Some (DT ts)
                    \<and> tsToObj ts = \<lparr>c_year = (if late then y + 1 else y), c_month = mth,
                         c_day = (if late then min d (daysInMonth (y + 1) mth) else d),
                         c_hour = h, c_minute = mi, c_second = 0, c_millisecond = 0\<rparr>))
            \<and> (cand \<noteq> InvalidDT \<and> 23 < h \<longrightarrow>
                 h = 24 \<and> mi = 0
                 \<and> cand = DT (objToTS \<lparr>c_year = y, c_month = mth, c_day = d, c_hour = 0,
                                       c_minute = 0, c_second = 0, c_millisecond = 0\<rparr> + 86400000))"
proof -
  define y where "y = c_year (tsToObj now)"
  define cand where "cand = fromObject y mth d h mi"
  define late where "late = js_lt (toMillis cand) (Some (now - 300000))"
  define c where "c = \<lparr>c_year = y, c_month = mth, c_day = d, c_hour = h, c_minute = mi,
                        c_second = 0, c_millisecond = 0\<rparr>"
  have ne: "normalizeLine line \<noteq> []" using assms by (rule match_date_nonempty)
  have p: "parseDateLineUTC now line = Some (if late then plus_dt cand one_year else cand)"
    using ne assms
    by (simp add: parseDateLineUTC_def Let_def minus_five_minutes y_def cand_def late_def)
  have q: "\<exists>ts. parseDateLineUTC now line = Some (DT ts)
                    \<and> tsToObj ts = \<lparr>c_year = (if late then y + 1 else y), c_month = mth,
                         c_day = (if late then min d (daysInMonth (y + 1) mth) else d),
                         c_hour = h, c_minute = mi, c_second = 0, c_millisecond = 0\<rparr>"
    if "cand \<noteq> InvalidDT" "h \<le> 23"
  proof -
    have cv: "cand = DT (objToTS c)" and v: "valid_comps c"
      using that unfolding cand_def fromObject_def c_def valid_comps_def
      by (auto split: if_splits)
    show ?thesis
    proof (cases late)
      case True
      have "tsToObj (plus_ts (objToTS c) one_year)
          = \<lparr>c_year = y + 1, c_month = mth, c_day = min d (daysInMonth (y + 1) mth),
             c_hour = h, c_minute = mi, c_second = 0, c_millisecond = 0\<rparr>"
        using plus_one_year[OF v] by (simp add: c_def)
      then show ?thesis using p True cv by simp
    next
      case False
      have "tsToObj (objToTS c) = c" using v by (rule tsToObj_objToTS)
      then show ?thesis using p False cv by (simp add: c_def)
    qed
  qed
  have r: "h = 24 \<and> mi = 0
           \<and> cand = DT (objToTS \<lparr>c_year = y, c_month = mth, c_day = d, c_hour = 0,
                                 c_minute = 0, c_second = 0, c_millisecond = 0\<rparr> + 86400000)"
    if "cand \<noteq> InvalidDT" "23 < h"
  proof -
    have h: "h = 24" "mi = 0" using that unfolding cand_def fromObject_def by (auto split: if_splits)
    then have "cand = DT (objToTS \<lparr>c_year = y, c_month = mth, c_day = d, c_hour = 24,
                                 c_minute = 0, c_second = 0, c_millisecond = 0\<rparr>)"
      using that(1) unfolding cand_def fromObject_def by (auto split: if_splits)
    then show ?thesis using h by (simp only: objToTS_hour_24 simp_thms)
  qed
  show ?thesis
    unfolding Let_def y_def[symmetric] cand_def[symmetric] late_def[symmetric]
    using p q r by blast
qed

text \<open>
  C3 as stated fails for the line \<^verbatim>\<open>31.12. 24:00\<close>, which the regular expression
  matches. Read on 2024-06-01 00:00 its candidate is not in the past, it is not moved,
  and it is 2025-01-01 00:00: the year of the clock is not kept.
\<close>

theorem hour_24_counterexample:
  "match_date (normalizeLine ''31.12. 24:00'') = Some (31, 12, 24, 0)
   \<and> c_year (tsToObj 1717200000000) = 2024
   \<and> fromObject 2024 12 31 24 0 = DT 1735689600000
   \<and> \<not> js_lt (toMillis (DT 1735689600000)) (Some (1717200000000 - 300000))
   \<and> parseDateLineUTC 1717200000000 ''31.12. 24:00'' = Some (DT 1735689600000)
   \<and> tsToObj 1735689600000 = \<lparr>c_year = 2025, c_month = 1, c_day = 1, c_hour = 0, c_minute = 0,
                                c_second = 0, c_millisecond = 0\<rparr>"
  by code_simp

text \<open>The line \<^verbatim>\<open>Mon, 5.3. 14:00\<close>: read on 2024-03-01 00:00 it is 2024-03-05 14:00; read
  on 2024-03-06 00:00 it is 2025-03-05 14:00; read at 14:05:00.000 of the day itself it
  stays in 2024, one millisecond later it moves to 2025.\<close>

theorem year_inference_witness:
  "parseDateLineUTC 1709251200000 ''Mon, 5.3. 14:00'' = Some (DT 1709647200000)
   \<and> parseDateLineUTC 1709683200000 ''Mon, 5.3. 14:00'' = Some (DT 1741183200000)
   \<and> parseDateLineUTC 1709647500000 ''Mon, 5.3. 14:00'' = Some (DT 1709647200000)
   \<and> parseDateLineUTC 1709647500001 ''Mon, 5.3. 14:00'' = Some (DT 1741183200000)
   \<and> tsToObj 1709647200000 = \<lparr>c_year = 2024, c_month = 3, c_day = 5, c_hour = 14, c_minute = 0,
                                c_second = 0, c_millisecond = 0\<rparr>
   \<and> tsToObj 1741183200000 = \<lparr>c_year = 2025, c_month = 3, c_day = 5, c_hour = 14, c_minute = 0,
                                c_second = 0, c_millisecond = 0\<rparr>"
proof -
  have m: "match_date (normalizeLine ''Mon, 5.3. 14:00'') = Some (5, 3, 14, 0)" by code_simp
  have y1: "c_year (tsToObj 1709251200000) = 2024" by code_simp
  have y2: "c_year (tsToObj 1709683200000) = 2024" by code_simp
  have y3: "c_year (tsToObj 1709647500000) = 2024" by code_simp
  have y4: "c_year (tsToObj 1709647500001) = 2024" by code_simp
  have c: "fromObject 2024 3 5 14 0 = DT 1709647200000" by code_simp
  have d: "daysInMonth 2025 3 = 31" by code_simp
  have p: "plus_ts 1709647200000 one_year = 1741183200000" by code_simp
  show ?thesis
    using year_inference[OF m, of 1709251200000] year_inference[OF m, of 1709683200000]
      year_inference[OF m, of 1709647500000] year_inference[OF m, of 1709647500001]
    by (auto simp: Let_def y1 y2 y3 y4 c d p)
qed

section \<open>Unique keys in a catalog\<close>

lemma collect_keep_first:
  "collect clock ty i lines seen evs
     = evs @ keep_first (filter (\<lambda>e. key e \<notin> seen) (parsed_events clock ty i lines))"
proof (induction lines arbitrary: i seen evs)
  case Nil
  show ?case by simp
next
  case (Cons l ls)
  show ?case
  proof (cases "parseDateLineUTC (clock i) l")
    case None
    then show ?thesis using Cons.IH by simp
  next
    case (Some dt)
    have f: "filter (\<lambda>x. key x \<noteq> mk_key ty dt) (filter (\<lambda>e. key e \<notin> seen) (parsed_events clock ty (Suc i) ls))
          = filter (\<lambda>e. key e \<notin> insert (mk_key ty dt) seen) (parsed_events clock ty (Suc i) ls)"
      by (simp add: conj_commute)
    show ?thesis
      using Some Cons.IH[of "Suc i"] f by (simp add: mk_event_def Let_def)
  qed
qed

lemma set_keep_first: "set (keep_first es) \<subseteq> set es"
  by (induction es rule: keep_first.induct) auto

lemma distinct_keep_first: "distinct (map key (keep_first es))"
proof (induction es rule: keep_first.induct)
  case 1
  show ?case by simp
next
  case (2 e es)
  have "key e \<notin> key ` set (keep_first (filter (\<lambda>x. key x \<noteq> key e) es))"
    using set_keep_first[of "filter (\<lambda>x. key x \<noteq> key e) es"] by auto
  then show ?case using 2 by simp
qed

lemma keep_first_keys: "key ` set (keep_first es) = key ` set es"
proof (induction es rule: keep_first.induct)
  case 1
  show ?case by simp
next
  case (2 e es)
  have "key ` set (filter (\<lambda>x. key x \<noteq> key e) es) = key ` set es - {key e}" by auto
  then show ?case using 2 by auto
qed

lemma mset_js_insert: "mset (js_insert x ys) = add_mset x (mset ys)"
  by (induction ys) auto

lemma mset_foldl_js_insert: "mset (foldl (\<lambda>acc x. js_insert x acc) acc xs) = mset acc + mset xs"
  by (induction xs arbitrary: acc) (auto simp: mset_js_insert)

lemma mset_js_sort: "mset (js_sort xs) = mset xs"
  by (simp add: js_sort_def mset_foldl_js_insert)

lemma set_js_sort: "set (js_sort xs) = set xs"
  using mset_js_sort by (metis set_mset_mset)

lemma distinct_keys_js_sort: "distinct (map key (js_sort xs)) = distinct (map key xs)"
proof -
  have "mset (map key (js_sort xs)) = mset (map key xs)"
    by (metis mset_js_sort mset_map)
  then show ?thesis by (rule mset_eq_imp_distinct_iff)
qed

lemma parsed_events_label: "e \<in> set (parsed_events clock ty i lines) \<Longrightarrow> \<exists>dt. e = mk_event ty dt"
  by (induction lines arbitrary: i) (auto split: option.splits)

lemma key_label:
  assumes "CHR '':'' \<notin> set ty"
  shows "takeWhile (\<lambda>ch. ch \<noteq> CHR '':'') (mk_key ty dt) = ty"
proof -
  have "\<And>x. x \<in> set ty \<Longrightarrow> x \<noteq> CHR '':''" using assms by auto
  then have "takeWhile (\<lambda>ch. ch \<noteq> CHR '':'') (ty @ CHR '':'' # template_str (toISO dt))
        = ty @ takeWhile (\<lambda>ch. ch \<noteq> CHR '':'') (CHR '':'' # template_str (toISO dt))"
    by (rule takeWhile_append2)
  then show ?thesis by (simp add: mk_key_def)
qed

lemma collected_label:
  assumes "e \<in> set (keep_first (parsed_events clock ty i lines))" and "CHR '':'' \<notin> set ty"
  shows "takeWhile (\<lambda>ch. ch \<noteq> CHR '':'') (key e) = ty"
proof -
  from assms(1) have "e \<in> set (parsed_events clock ty i lines)"
    using set_keep_first by blast
  then obtain dt where "e = mk_event ty dt" using parsed_events_label by blast
  then show ?thesis using key_label[OF assms(2)] by (simp add: mk_event_def)
qed

lemma readScheduleFile_keep_first:
  "readScheduleFile clock content ty =
     (case content of None \<Rightarrow> []
      | Some text \<Rightarrow> js_sort (keep_first (parsed_events clock ty 0 (schedule_lines text))))"
  by (simp add: readScheduleFile_def collect_keep_first split: option.splits)

lemma readScheduleFile_index_keep_first:
  "readScheduleFile_index clock content ty =
     (case content of None \<Rightarrow> []
      | Some text \<Rightarrow> js_sort (keep_first (parsed_events clock ty 0 (split_on (CHR 0x0A) text))))"
  by (simp add: readScheduleFile_index_def collect_keep_first split: option.splits)

lemma distinct_readScheduleFile: "distinct (map key (readScheduleFile clock content ty))"
  by (simp add: readScheduleFile_keep_first distinct_keys_js_sort distinct_keep_first split: option.splits)

lemma distinct_readScheduleFile_index: "distinct (map key (readScheduleFile_index clock content ty))"
  by (simp add: readScheduleFile_index_keep_first distinct_keys_js_sort distinct_keep_first split: option.splits)

lemma label_readScheduleFile:
  assumes "e \<in> set (readScheduleFile clock content ty)" and "CHR '':'' \<notin> set ty"
  shows "takeWhile (\<lambda>ch. ch \<noteq> CHR '':'') (key e) = ty"
  using assms collected_label
  by (auto simp: readScheduleFile_keep_first set_js_sort split: option.splits)

lemma label_readScheduleFile_index:
  assumes "e \<in> set (readScheduleFile_index clock content ty)" and "CHR '':'' \<notin> set ty"
  shows "takeWhile (\<lambda>ch. ch \<noteq> CHR '':'') (key e) = ty"
  using assms collected_label
  by (auto simp: readScheduleFile_index_keep_first set_js_sort split: option.splits)

lemma distinct_merge:
  assumes "distinct (map key xs)" and "distinct (map key ys)"
    and "\<And>e. e \<in> set xs \<Longrightarrow> takeWhile (\<lambda>ch. ch \<noteq> CHR '':'') (key e) = a"
    and "\<And>e. e \<in> set ys \<Longrightarrow> takeWhile (\<lambda>ch. ch \<noteq> CHR '':'') (key e) = b"
    and "a \<noteq> b"
  shows "distinct (map key (js_sort (xs @ ys)))"
proof -
  have "key ` set xs \<inter> key ` set ys = {}"
  proof (rule ccontr)
    assume "key ` set xs \<inter> key ` set ys \<noteq> {}"
    then obtain x y where "x \<in> set xs" "y \<in> set ys" "key x = key y" by auto
    then show False using assms(3)[of x] assms(4)[of y] assms(5) by simp
  qed
  then show ?thesis using assms(1,2) by (simp add: distinct_keys_js_sort)
qed

text \<open>
  C8. Both variants of \<^verbatim>\<open>readScheduleFile\<close> return, sorted, the parsed events with the
  first occurrence of every key kept and the later ones discarded, so the keys of one
  source are distinct; two sources with different type labels (without a colon, as
  \<^verbatim>\<open>ruins\<close> and \<^verbatim>\<open>altar\<close>) share no key, so the keys of the merged catalog that
  \<^verbatim>\<open>loadAllEvents\<close> builds are distinct.
\<close>

theorem unique_keys:
  "readScheduleFile clock (Some text) ty
      = js_sort (keep_first (parsed_events clock ty 0 (schedule_lines text)))
   \<and> readScheduleFile_index clock (Some text) ty
      = js_sort (keep_first (parsed_events clock ty 0 (split_on (CHR 0x0A) text)))
   \<and> distinct (map key (readScheduleFile clock content ty))
   \<and> distinct (map key (readScheduleFile_index clock content ty))
   \<and> (CHR '':'' \<notin> set ty \<and> CHR '':'' \<notin> set ty' \<and> ty \<noteq> ty' \<longrightarrow>
        distinct (map key (js_sort (readScheduleFile clock content ty @ readScheduleFile clock' content' ty')))
        \<and> distinct (map key (js_sort (readScheduleFile_index clock content ty
                                         @ readScheduleFile_index clock' content' ty'))))
   \<and> distinct (map key (events (snd (loadAllEvents fromISO clock ruins_txt clock' altar_txt now st))))
   \<and> distinct (map key (events (loadAllEvents_index fromISO clock ruins_txt clock' altar_txt now st)))"
proof -
  have gen: "CHR '':'' \<notin> set a \<Longrightarrow> CHR '':'' \<notin> set b \<Longrightarrow> a \<noteq> b \<Longrightarrow>
      distinct (map key (js_sort (readScheduleFile c x a @ readScheduleFile c' x' b)))" for a b c c' x x'
    by (rule distinct_merge[where a = a and b = b])
      (simp_all add: distinct_readScheduleFile label_readScheduleFile)
  have gen_i: "CHR '':'' \<notin> set a \<Longrightarrow> CHR '':'' \<notin> set b \<Longrightarrow> a \<noteq> b \<Longrightarrow>
      distinct (map key (js_sort (readScheduleFile_index c x a @ readScheduleFile_index c' x' b)))" for a b c c' x x'
    by (rule distinct_merge[where a = a and b = b])
      (simp_all add: distinct_readScheduleFile_index label_readScheduleFile_index)
  have l: "distinct (map key (events (snd (loadAllEvents fromISO clock ruins_txt clock' altar_txt now st))))"
    using gen[of "''ruins''" "''altar''" clock ruins_txt clock' altar_txt]
    by (simp add: loadAllEvents_def Let_def)
  have li: "distinct (map key (events (loadAllEvents_index fromISO clock ruins_txt clock' altar_txt now st)))"
    using gen_i[of "''ruins''" "''altar''" clock ruins_txt clock' altar_txt]
    by (simp add: loadAllEvents_index_def Let_def)
  have a: "readScheduleFile clock (Some text) ty
      = js_sort (keep_first (parsed_events clock ty 0 (schedule_lines text)))"
    by (simp add: readScheduleFile_keep_first)
  have b: "readScheduleFile_index clock (Some text) ty
      = js_sort (keep_first (parsed_events clock ty 0 (split_on (CHR 0x0A) text)))"
    by (simp add: readScheduleFile_index_keep_first)
  show ?thesis
    using a b distinct_readScheduleFile[of clock content ty]
      distinct_readScheduleFile_index[of clock content ty]
      gen[of ty ty' clock content clock' content'] gen_i[of ty ty' clock content clock' content'] l li
    by blast
qed

text \<open>Two lines that normalize to the same date, read on 2024-03-01: one event.\<close>

theorem unique_keys_witness:
  "readScheduleFile (\<lambda>i. 1709251200000) (Some ''Mon, 5.3. 14:00\<newline>5.3.  14:00'') ''ruins'' = [ex_event]
   \<and> keep_first (parsed_events (\<lambda>i. 1709251200000) ''ruins'' 0
         (schedule_lines ''Mon, 5.3. 14:00\<newline>5.3.  14:00'')) = [ex_event]
   \<and> parsed_events (\<lambda>i. 1709251200000) ''ruins'' 0
         (schedule_lines ''Mon, 5.3. 14:00\<newline>5.3.  14:00'') = [ex_event, ex_event]"
proof -
  have p: "parsed_events (\<lambda>i. 1709251200000) ''ruins'' 0
         (schedule_lines ''Mon, 5.3. 14:00\<newline>5.3.  14:00'') = [ex_event, ex_event]"
    unfolding ex_event_def by code_simp
  have s: "js_sort [ex_event] = [ex_event]" by (simp add: js_sort_def)
  show ?thesis
    using unique_keys[of "\<lambda>i. 1709251200000" "''Mon, 5.3. 14:00\<newline>5.3.  14:00''" "''ruins''"]
    by (simp add: p s)
qed

section \<open>Lines that give no event\<close>

text \<open>The parser returns \<^verbatim>\<open>null\<close> exactly for the lines the regular expression does not
  match (the empty line and the comment line among them), and the loop of
  \<^verbatim>\<open>readScheduleFile\<close> passes over such a line. A line that matches and names no real date
  gives an invalid \<^verbatim>\<open>DateTime\<close>, not \<^verbatim>\<open>null\<close>.\<close>

lemma parse_none_iff:
  "parseDateLineUTC now line = None \<longleftrightarrow> match_date (normalizeLine line) = None"
  by (auto simp: parseDateLineUTC_def Let_def match_date_def split: option.splits)

lemma parse_unmatched_skipped:
  assumes "match_date (normalizeLine line) = None"
  shows "collect clock ty i (line # rest) seen evs = collect clock ty (Suc i) rest seen evs"
  using assms parse_none_iff[of "clock i" line] by simp

lemma parse_impossible_date:
  assumes "match_date (normalizeLine line) = Some (d, mth, h, mi)"
    and "fromObject (c_year (tsToObj now)) mth d h mi = InvalidDT"
  shows "parseDateLineUTC now line = Some InvalidDT"
  using assms match_date_nonempty[OF assms(1)] by (simp add: parseDateLineUTC_def Let_def)

text \<open>
  C4, where the code departs from it. The line \<^verbatim>\<open>31.2. 12:00\<close> has the recognized shape
  and names no date. The parser returns an invalid \<^verbatim>\<open>DateTime\<close>, an object, so the test
  \<^verbatim>\<open>if (!dt)\<close> of \<^verbatim>\<open>readScheduleFile\<close> does not skip the line: in both variants an event
  with an invalid start and the key \<^verbatim>\<open>ruins:null\<close> enters the catalog.
\<close>

theorem impossible_date_kept:
  "parseDateLineUTC 1709251200000 ''31.2. 12:00'' = Some InvalidDT
   \<and> readScheduleFile (\<lambda>i. 1709251200000) (Some ''31.2. 12:00'') ''ruins''
       = [\<lparr>ev_type = ''ruins'', startsAt = InvalidDT, key = ''ruins:null''\<rparr>]
   \<and> readScheduleFile_index (\<lambda>i. 1709251200000) (Some ''31.2. 12:00'') ''ruins''
       = [\<lparr>ev_type = ''ruins'', startsAt = InvalidDT, key = ''ruins:null''\<rparr>]"
  by code_simp

text \<open>One line, one event, in either variant.\<close>

theorem impossible_date_kept_witness:
  "length (readScheduleFile (\<lambda>i. 1709251200000) (Some ''31.2. 12:00'') ''ruins'') = 1
   \<and> length (readScheduleFile_index (\<lambda>i. 1709251200000) (Some ''31.2. 12:00'') ''ruins'') = 1"
  using impossible_date_kept by simp

section \<open>Sorted catalogs\<close>

lemma js_le_valid: "js_le (toMillis a) (toMillis b) = (\<exists>x y. a = DT x \<and> b = DT y \<and> x \<le> y)"
  by (cases a; cases b) auto

lemma js_lt_valid: "js_lt (toMillis a) (toMillis b) = (\<exists>x y. a = DT x \<and> b = DT y \<and> x < y)"
  by (cases a; cases b) auto

lemma js_le_now: "js_le (Some now) (toMillis a) = (\<exists>x. a = DT x \<and> now \<le> x)"
  by (cases a) auto

lemma js_le_lower: "js_le (Some a) b \<Longrightarrow> c \<le> a \<Longrightarrow> js_le (Some c) b"
  by (cases b) auto

lemma cmp_neg_valid:
  "cmp_neg a b = (\<exists>x y. startsAt a = DT x \<and> startsAt b = DT y \<and> x < y)"
  by (cases "startsAt a"; cases "startsAt b") (auto simp: cmp_neg_def)

lemma set_js_insert: "set (js_insert x ys) = insert x (set ys)"
  by (induction ys) auto

lemma ascending_js_insert:
  assumes "ascending ys" "all_valid ys" "startsAt x \<noteq> InvalidDT"
  shows "ascending (js_insert x ys)"
  using assms
proof (induction ys)
  case Nil
  show ?case by (simp add: ascending_def)
next
  case (Cons y ys)
  obtain tx where tx: "startsAt x = DT tx" using Cons.prems(3) by (cases "startsAt x") auto
  obtain ty where ty: "startsAt y = DT ty" using Cons.prems(2) by (cases "startsAt y") (auto simp: all_valid_def)
  have a: "ascending ys" "all_valid ys" using Cons.prems by (auto simp: ascending_def all_valid_def)
  have ys: "\<forall>z \<in> set ys. js_le (toMillis (startsAt y)) (toMillis (startsAt z))"
    using Cons.prems(1) by (simp add: ascending_def)
  show ?case
  proof (cases "cmp_neg x y")
    case True
    then have lt: "tx < ty" using tx ty by (simp add: cmp_neg_valid)
    have "\<And>z. z \<in> set ys \<Longrightarrow> js_le (Some tx) (toMillis (startsAt z))"
      using ys ty lt js_le_lower[of ty _ tx] by simp
    then have "\<forall>z \<in> set (y # ys). js_le (toMillis (startsAt x)) (toMillis (startsAt z))"
      using tx ty lt by simp
    then show ?thesis using True Cons.prems(1) by (simp add: ascending_def)
  next
    case False
    then have ge: "ty \<le> tx" using tx ty by (simp add: cmp_neg_valid)
    have "ascending (js_insert x ys)" using Cons.IH a Cons.prems(3) by simp
    moreover have "\<forall>z \<in> set (js_insert x ys). js_le (toMillis (startsAt y)) (toMillis (startsAt z))"
      using ys tx ty ge by (simp add: set_js_insert)
    ultimately show ?thesis using False by (simp add: ascending_def)
  qed
qed

lemma all_valid_js_insert: "all_valid (js_insert x ys) = (startsAt x \<noteq> InvalidDT \<and> all_valid ys)"
  by (induction ys) (auto simp: all_valid_def)

lemma ascending_foldl:
  assumes "ascending acc" "all_valid acc" "all_valid xs"
  shows "ascending (foldl (\<lambda>acc x. js_insert x acc) acc xs)
       \<and> all_valid (foldl (\<lambda>acc x. js_insert x acc) acc xs)"
  using assms
proof (induction xs arbitrary: acc)
  case Nil
  then show ?case by simp
next
  case (Cons x xs)
  have v: "startsAt x \<noteq> InvalidDT" "all_valid xs" using Cons.prems(3) by (simp_all add: all_valid_def)
  have "ascending (js_insert x acc)" using Cons.prems(1,2) v(1) by (rule ascending_js_insert)
  moreover have "all_valid (js_insert x acc)" using Cons.prems(2) v(1) by (simp add: all_valid_js_insert)
  ultimately show ?case using Cons.IH v(2) by simp
qed

lemma ascending_js_sort: "all_valid xs \<Longrightarrow> ascending (js_sort xs)"
  using ascending_foldl[of "[]" xs] by (simp add: js_sort_def ascending_def all_valid_def)

lemma ascending_filter: "ascending evs \<Longrightarrow> ascending (filter P evs)"
  by (simp add: ascending_def sorted_wrt_filter)

lemma ascending_take: "ascending evs \<Longrightarrow> ascending (take n evs)"
  by (simp add: ascending_def sorted_wrt_take)

section \<open>Upcoming events\<close>

text \<open>\<^verbatim>\<open>listUpcoming\<close> of the second variant returns the first fifty of the catalog's
  events that start in the closed interval from \<open>now\<close> to \<open>now\<close> plus the duration, in the
  order of the catalog; for seven days the interval ends 604800000 ms after \<open>now\<close>.\<close>

lemma in_range_iff:
  "in_range now rng e
     = (\<exists>ts. startsAt e = DT ts \<and> now \<le> ts \<and> ts \<le> plus_ts now rng)"
  by (cases "startsAt e") (auto simp: in_range_def)

lemma listUpcoming_spec:
  "listUpcoming now rng evs
      = take 50 (filter (\<lambda>e. \<exists>ts. startsAt e = DT ts \<and> now \<le> ts \<and> ts \<le> plus_ts now rng) evs)
   \<and> length (listUpcoming now rng evs) \<le> 50
   \<and> (\<forall>e \<in> set (listUpcoming now rng evs). \<exists>ts. startsAt e = DT ts \<and> now \<le> ts \<and> ts \<le> plus_ts now rng)
   \<and> (ascending evs \<longrightarrow> ascending (listUpcoming now rng evs))
   \<and> plus_ts now seven_days = now + 604800000"
proof -
  have f: "filter (in_range now rng) evs
      = filter (\<lambda>e. \<exists>ts. startsAt e = DT ts \<and> now \<le> ts \<and> ts \<le> plus_ts now rng) evs"
    by (rule filter_cong) (simp_all only: in_range_iff)
  have a: "listUpcoming now rng evs
      = take 50 (filter (\<lambda>e. \<exists>ts. startsAt e = DT ts \<and> now \<le> ts \<and> ts \<le> plus_ts now rng) evs)"
    unfolding listUpcoming_def f ..
  have b: "length (listUpcoming now rng evs) \<le> 50" unfolding listUpcoming_def by simp
  have m: "\<forall>e \<in> set (listUpcoming now rng evs). \<exists>ts. startsAt e = DT ts \<and> now \<le> ts \<and> ts \<le> plus_ts now rng"
  proof
    fix e assume "e \<in> set (listUpcoming now rng evs)"
    then have "e \<in> set (filter (in_range now rng) evs)"
      unfolding listUpcoming_def by (rule in_set_takeD)
    then have "in_range now rng e" by simp
    then show "\<exists>ts. startsAt e = DT ts \<and> now \<le> ts \<and> ts \<le> plus_ts now rng"
      by (simp only: in_range_iff)
  qed
  have c: "ascending evs \<longrightarrow> ascending (listUpcoming now rng evs)"
    unfolding listUpcoming_def by (intro impI ascending_take ascending_filter)
  have s: "plus_ts now seven_days = now + 604800000"
    by (simp add: seven_days_def no_duration_def plus_ts_no_calendar)
  show ?thesis using a b m c s by blast
qed
lemma plus_ts_seven_days: "plus_ts now seven_days = now + 604800000"
  by (simp add: seven_days_def no_duration_def plus_ts_no_calendar)

lemma until_index_fixed_aux:
  "map snd (filter (\<lambda>(i, e). Q e) (enumerate n evs)) = filter Q evs"
  by (induction evs arbitrary: n) auto

lemma until_index_fixed:
  "until_index rng (fixed_clock t) evs
     = filter (\<lambda>e. js_le (toMillis (startsAt e)) (toMillis (plus_dt (DT t) rng))) evs"
  unfolding until_index_def fixed_clock_def by (rule until_index_fixed_aux)

lemma length_show_nat:
  assumes "k < 100"
  shows "length (show_nat k) = (if k < 10 then 1 else 2)"
proof (cases "k < 10")
  case True
  then show ?thesis by (subst show_nat.simps) simp
next
  case False
  have "k div 10 < 10" using assms by simp
  then have "length (show_nat (k div 10)) = 1" by (subst show_nat.simps) simp
  then show ?thesis using False by (subst show_nat.simps) simp
qed

lemma length_padStart2:
  assumes "0 \<le> n" "n \<le> 99"
  shows "length (padStart n 2) = 2"
proof -
  have "nat \<bar>n\<bar> < 100" using assms by simp
  then have "length (show_nat (nat \<bar>n\<bar>)) = (if nat \<bar>n\<bar> < 10 then 1 else 2)"
    by (rule length_show_nat)
  then show ?thesis using assms by (simp add: padStart_def Let_def)
qed

lemma length_weekday_short: "length (weekday_short ts) = 3"
proof -
  define i where "i = nat ((ts div 86400000 + 3) mod 7)"
  have "i < 7" unfolding i_def by simp
  then have "[''Mon'', ''Tue'', ''Wed'', ''Thu'', ''Fri'', ''Sat'', ''Sun''] ! i
      \<in> set [''Mon'', ''Tue'', ''Wed'', ''Thu'', ''Fri'', ''Sat'', ''Sun'']"
    by (intro nth_mem) simp
  then show ?thesis unfolding weekday_short_def i_def[symmetric] by auto
qed

lemma daysInMonth_le_31:
  assumes "1 \<le> m" "m \<le> 12"
  shows "daysInMonth y m \<le> 31"
  using assms by (cases m rule: month_cases) (simp_all add: daysInMonth_def)

lemma length_toFormat: "length (toFormat_ccc_dd_LL_HH_mm (DT ts)) = 15"
proof -
  have v: "valid_comps (tsToObj ts)" by (rule valid_tsToObj)
  then have "c_day (tsToObj ts) \<le> 31"
    using daysInMonth_le_31[of "c_month (tsToObj ts)" "c_year (tsToObj ts)"]
    by (simp add: valid_comps_def)
  then have "length (padStart (c_day (tsToObj ts)) 2) = 2"
    "length (padStart (c_month (tsToObj ts)) 2) = 2"
    "length (padStart (c_hour (tsToObj ts)) 2) = 2"
    "length (padStart (c_minute (tsToObj ts)) 2) = 2"
    using v by (simp_all add: valid_comps_def length_padStart2)
  then show ?thesis by (simp add: Let_def length_weekday_short)
qed

lemma length_listing_line_index:
  assumes "startsAt e \<noteq> InvalidDT" "length (ev_type e) = 5"
  shows "length (listing_line_index e) = 29"
proof -
  obtain ts where "startsAt e = DT ts" using assms(1) by (cases "startsAt e") auto
  then show ?thesis using assms(2)
    by (simp add: listing_line_index_def toUpperCase_def length_toFormat
        del: toFormat_ccc_dd_LL_HH_mm.simps)
qed

lemma length_join_with:
  assumes "\<forall>w \<in> set ws. length w = n" "ws \<noteq> []"
  shows "length (join_with sep ws) + 1 = (n + 1) * length ws"
  using assms by (induction sep ws rule: join_with.induct) simp_all

lemma week_reply_index_length:
  assumes "\<forall>e \<in> set evs. length (ev_type e) = 5
             \<and> (\<exists>ts. startsAt e = DT ts \<and> ts \<le> t + 604800000)" "evs \<noteq> []"
  shows "length (week_reply_index (fixed_clock t) evs) + 1 = 30 * length evs"
proof -
  have all: "until_index seven_days (fixed_clock t) evs = evs"
    unfolding until_index_fixed using assms(1) by (intro filter_True) (auto simp: plus_ts_seven_days)
  have "\<forall>w \<in> set (map listing_line_index evs). length w = 29"
    using assms(1) by (auto simp: length_listing_line_index)
  then have "length (join_with (CHR 0x0A) (map listing_line_index evs)) + 1
      = (29 + 1) * length (map listing_line_index evs)"
    using assms(2) by (intro length_join_with) simp_all
  then show ?thesis using assms(2) by (simp add: week_reply_index_def all)
qed

lemma ex_hourly_props:
  "length ex_hourly = 62"
  "\<forall>e \<in> set ex_hourly. length (ev_type e) = 5
      \<and> (\<exists>ts. startsAt e = DT ts \<and> 1709251200000 \<le> ts \<and> ts \<le> 1709251200000 + 604800000)"
  by (auto simp: ex_hourly_def mk_event_def)

text \<open>
  C5, where the code departs from it. The \<^verbatim>\<open>week\<close> handler of \<^verbatim>\<open>index.js\<close> filters with
  \<^verbatim>\<open>e.startsAt <= now + 7 days\<close> alone. Asked at 15:00 it lists the event that started at
  14:00, which \<^verbatim>\<open>listUpcoming\<close> of the second variant leaves out; and of sixty-two events
  inside the week it lists all sixty-two, where \<^verbatim>\<open>listUpcoming\<close> returns fifty.
\<close>

theorem week_index_past_event:
  "until_index seven_days (fixed_clock 1709650800000) [ex_event] = [ex_event]
   \<and> listUpcoming 1709650800000 seven_days [ex_event] = []
   \<and> length (until_index seven_days (fixed_clock 1709251200000) ex_hourly) = 62
   \<and> length (listUpcoming 1709251200000 seven_days ex_hourly) = 50"
proof -
  have a: "until_index seven_days (fixed_clock 1709650800000) [ex_event] = [ex_event]"
    by (simp add: until_index_fixed plus_ts_seven_days ex_event_def)
  have b: "listUpcoming 1709650800000 seven_days [ex_event] = []"
    by (simp add: listUpcoming_def in_range_def ex_event_def plus_ts_seven_days)
  have "until_index seven_days (fixed_clock 1709251200000) ex_hourly = ex_hourly"
    unfolding until_index_fixed using ex_hourly_props(2)
    by (intro filter_True) (auto simp: plus_ts_seven_days)
  then have c: "length (until_index seven_days (fixed_clock 1709251200000) ex_hourly) = 62"
    by (simp add: ex_hourly_props(1))
  have "filter (in_range 1709251200000 seven_days) ex_hourly = ex_hourly"
    using ex_hourly_props(2) by (intro filter_True) (auto simp: in_range_def plus_ts_seven_days)
  then have d: "length (listUpcoming 1709251200000 seven_days ex_hourly) = 50"
    by (simp add: listUpcoming_def ex_hourly_props(1))
  show ?thesis using a b c d by simp
qed

text \<open>The lengths of the two answers for the event that has started.\<close>

theorem week_index_past_event_witness:
  "length (until_index seven_days (fixed_clock 1709650800000) [ex_event]) = 1
   \<and> length (listUpcoming 1709650800000 seven_days [ex_event]) = 0"
  using week_index_past_event by simp

section \<open>The next event\<close>

text \<open>\<^verbatim>\<open>nextEvent\<close> of the second variant returns no event exactly when no event of the
  catalog starts at or after \<open>now\<close>; an event it returns starts at or after \<open>now\<close>, and
  in an ascending catalog no event that starts at or after \<open>now\<close> starts before it.\<close>

lemma nextEvent_spec:
  "(nextEvent now evs = None \<longleftrightarrow> \<not> (\<exists>e \<in> set evs. \<exists>ts. startsAt e = DT ts \<and> now \<le> ts))
   \<and> (\<forall>e. nextEvent now evs = Some e \<longrightarrow>
          e \<in> set evs \<and> (\<exists>ts. startsAt e = DT ts \<and> now \<le> ts
             \<and> (ascending evs \<longrightarrow>
                  (\<forall>e' \<in> set evs. \<forall>ts'. startsAt e' = DT ts' \<and> now \<le> ts' \<longrightarrow> ts \<le> ts'))))"
proof (intro conjI allI impI)
  show "nextEvent now evs = None \<longleftrightarrow> \<not> (\<exists>e \<in> set evs. \<exists>ts. startsAt e = DT ts \<and> now \<le> ts)"
    by (auto simp: nextEvent_def find_None_iff js_le_now)
next
  fix e assume s: "nextEvent now evs = Some e"
  then obtain i where i: "i < length evs" "evs ! i = e" "js_le (Some now) (toMillis (startsAt e))"
    "\<forall>j < i. \<not> js_le (Some now) (toMillis (startsAt (evs ! j)))"
    unfolding nextEvent_def find_Some_iff by blast
  show "e \<in> set evs" using i(1,2) by auto
  obtain ts where ts: "startsAt e = DT ts" "now \<le> ts" using i(3) by (auto simp: js_le_now)
  have "\<forall>e' \<in> set evs. \<forall>ts'. startsAt e' = DT ts' \<and> now \<le> ts' \<longrightarrow> ts \<le> ts'" if asc: "ascending evs"
  proof (intro ballI allI impI)
    fix e' ts' assume e': "e' \<in> set evs" "startsAt e' = DT ts' \<and> now \<le> ts'"
    then obtain j where j: "j < length evs" "evs ! j = e'" by (auto simp: in_set_conv_nth)
    have "\<not> j < i" using i(4) j(2) e'(2) by (auto simp: js_le_now)
    then have "i = j \<or> i < j" by auto
    then show "ts \<le> ts'"
    proof
      assume "i = j" then show ?thesis using i(2) j(2) ts e'(2) by simp
    next
      assume "i < j"
      then have "js_le (toMillis (startsAt (evs ! i))) (toMillis (startsAt (evs ! j)))"
        using asc j(1) unfolding ascending_def by (simp add: sorted_wrt_iff_nth_less)
      then show ?thesis using i(2) j(2) ts e'(2) by (simp add: js_le_valid)
    qed
  qed
  then show "\<exists>ts. startsAt e = DT ts \<and> now \<le> ts
             \<and> (ascending evs \<longrightarrow>
                  (\<forall>e' \<in> set evs. \<forall>ts'. startsAt e' = DT ts' \<and> now \<le> ts' \<longrightarrow> ts \<le> ts'))"
    using ts by blast
qed

text \<open>
  C6, where the code departs from it. The \<^verbatim>\<open>status\<close> handler of \<^verbatim>\<open>index.js\<close> searches
  with \<^verbatim>\<open>e.startsAt > now\<close>. Asked at the very start of the event it finds nothing and
  answers \<^verbatim>\<open>No upcoming events.\<close>; \<^verbatim>\<open>nextEvent\<close> of the second variant returns the event.
\<close>

theorem status_index_at_start:
  "status_find_index (fixed_clock 1709647200000) [ex_event] = None
   \<and> status_reply_index (fixed_clock 1709647200000) [ex_event] = ''No upcoming events.''
   \<and> nextEvent 1709647200000 [ex_event] = Some ex_event"
  by (simp add: status_find_index_def status_reply_index_def nextEvent_def fixed_clock_def
      ex_event_def enumerate_eq_zip)

text \<open>The two variants differ on this input.\<close>

theorem status_index_at_start_witness:
  "status_find_index (fixed_clock 1709647200000) [ex_event] \<noteq> nextEvent 1709647200000 [ex_event]"
  using status_index_at_start by simp

section \<open>Cleaning the ledger\<close>

text \<open>The cleanup of the second variant, for every ISO parser: it removes exactly the
  entries whose key, behind its first colon, parses to a valid date more than 14 days
  (1209600000 ms) before \<open>now\<close>; \<^verbatim>\<open>loadAllEvents\<close> saves the ledger behind the cleanup;
  an entry whose key does not parse stays, one 13 days old stays, one 15 days old goes.
  For a key built by \<^verbatim>\<open>readScheduleFile\<close> the part behind the first colon is the ISO text
  of the event's start.\<close>

lemma split_on_nonempty: "split_on sep s \<noteq> []"
  by (induction s) (auto split: list.splits)

lemma join_split: "join_with sep (split_on sep s) = s"
proof (induction s)
  case Nil
  show ?case by simp
next
  case (Cons ch cs)
  show ?case
  proof (cases "ch = sep")
    case True
    obtain w ws where "split_on sep cs = w # ws" using split_on_nonempty[of sep cs] by (cases "split_on sep cs") auto
    then show ?thesis using True Cons by simp
  next
    case False
    obtain w ws where w: "split_on sep cs = w # ws" using split_on_nonempty[of sep cs] by (cases "split_on sep cs") auto
    then show ?thesis using False Cons by (cases ws) simp_all
  qed
qed

lemma split_on_prefix:
  assumes "sep \<notin> set p"
  shows "split_on sep (p @ sep # r) = p # split_on sep r"
  using assms by (induction p) auto

lemma embedded_iso_mk_key:
  assumes "CHR '':'' \<notin> set ty"
  shows "embedded_iso (mk_key ty dt) = template_str (toISO dt)"
  using assms by (simp add: embedded_iso_def mk_key_def split_on_prefix join_split)

lemma stale_iff:
  "stale fromISO now k = (\<exists>t. fromISO (embedded_iso k) = DT t \<and> t < now - 1209600000)"
  by (cases "fromISO (embedded_iso k)") (simp_all add: stale_def minus_fourteen_days)

lemma stale_index_iff:
  "stale_index fromISO now k
     = (\<exists>seg t. second_segment k = Some seg \<and> fromISO seg = DT t \<and> t < now - 1209600000)"
proof (cases "second_segment k")
  case None
  then show ?thesis by (simp add: stale_index_def)
next
  case (Some seg)
  then show ?thesis by (cases "fromISO seg") (auto simp: stale_index_def)
qed

lemma foldl_delete:
  "foldl (\<lambda>acc k. if P k then AList.delete k acc else acc) acc ks
     = filter (\<lambda>p. \<not> (fst p \<in> set ks \<and> P (fst p))) acc"
proof (induction ks arbitrary: acc)
  case Nil
  show ?case by simp
next
  case (Cons k ks)
  have d: "AList.delete k acc = filter (\<lambda>p. fst p \<noteq> k) acc"
    unfolding AList.delete_eq by (rule filter_cong) auto
  show ?case
  proof (cases "P k")
    case True
    have "filter (\<lambda>p. \<not> (fst p \<in> set ks \<and> P (fst p))) (filter (\<lambda>p. fst p \<noteq> k) acc)
        = filter (\<lambda>p. \<not> (fst p \<in> set (k # ks) \<and> P (fst p))) acc"
      using True by (auto intro: filter_cong)
    then show ?thesis using True Cons[of "AList.delete k acc"] d by simp
  next
    case False
    have "filter (\<lambda>p. \<not> (fst p \<in> set ks \<and> P (fst p))) acc
        = filter (\<lambda>p. \<not> (fst p \<in> set (k # ks) \<and> P (fst p))) acc"
      using False by (auto intro: filter_cong)
    then show ?thesis using False Cons[of acc] by simp
  qed
qed

lemma prune_filter: "prune fromISO now ntf = filter (\<lambda>p. \<not> stale fromISO now (fst p)) ntf"
  unfolding prune_def foldl_delete by (rule filter_cong) auto

lemma prune_index_filter:
  "prune_index fromISO now ntf = filter (\<lambda>p. \<not> stale_index fromISO now (fst p)) ntf"
  unfolding prune_index_def foldl_delete by (rule filter_cong) auto

lemma prune_spec:
  "prune fromISO now ntf
     = filter (\<lambda>p. \<not> (\<exists>t. fromISO (embedded_iso (fst p)) = DT t \<and> t < now - 14 * 86400000)) ntf
   \<and> notified (snd (loadAllEvents fromISO clock_r ruins_txt clock_a altar_txt now st))
       = prune fromISO now (notified st)
   \<and> state_file (snd (loadAllEvents fromISO clock_r ruins_txt clock_a altar_txt now st))
       = prune fromISO now (notified st)
   \<and> (\<forall>k v. (k, v) \<in> set ntf \<and> fromISO (embedded_iso k) = InvalidDT
          \<longrightarrow> (k, v) \<in> set (prune fromISO now ntf))
   \<and> (\<forall>k v. (k, v) \<in> set ntf \<and> fromISO (embedded_iso k) = DT (now - 13 * 86400000)
          \<longrightarrow> (k, v) \<in> set (prune fromISO now ntf))
   \<and> (\<forall>k. fromISO (embedded_iso k) = DT (now - 15 * 86400000)
          \<longrightarrow> k \<notin> fst ` set (prune fromISO now ntf))"
proof -
  have a: "prune fromISO now ntf
     = filter (\<lambda>p. \<not> (\<exists>t. fromISO (embedded_iso (fst p)) = DT t \<and> t < now - 14 * 86400000)) ntf"
    unfolding prune_filter by (rule filter_cong) (simp_all add: stale_iff)
  have b: "notified (snd (loadAllEvents fromISO clock_r ruins_txt clock_a altar_txt now st))
       = prune fromISO now (notified st)"
    "state_file (snd (loadAllEvents fromISO clock_r ruins_txt clock_a altar_txt now st))
       = prune fromISO now (notified st)"
    by (simp_all add: loadAllEvents_def Let_def)
  have c: "\<forall>k v. (k, v) \<in> set ntf \<and> fromISO (embedded_iso k) = InvalidDT
          \<longrightarrow> (k, v) \<in> set (prune fromISO now ntf)"
    unfolding a by simp
  have d: "\<forall>k v. (k, v) \<in> set ntf \<and> fromISO (embedded_iso k) = DT (now - 13 * 86400000)
          \<longrightarrow> (k, v) \<in> set (prune fromISO now ntf)"
    unfolding a by simp
  have e: "\<forall>k. fromISO (embedded_iso k) = DT (now - 15 * 86400000)
          \<longrightarrow> k \<notin> fst ` set (prune fromISO now ntf)"
    unfolding a by auto
  show ?thesis using a b c d e by blast
qed

text \<open>
  C7, where the code departs from it. The cleanup of \<^verbatim>\<open>index.js\<close> takes
  \<^verbatim>\<open>k.split(":")[1]\<close>, which cuts the ISO text at the colon of its time: the key of an event
  at 14:30 gives \<^verbatim>\<open>2024-03-05T14\<close>, read as 14:00. On 2024-03-19 at 14:20 UTC the entry
  is 13 days, 23 hours and 50 minutes old; \<^verbatim>\<open>index.js\<close> (with the system zone UTC) removes
  it, the second variant keeps it.
\<close>

theorem prune_index_early:
  "prune_index fromISO_utc 1710858000000 [(ex_key_1430, True)] = []
   \<and> prune fromISO_utc 1710858000000 [(ex_key_1430, True)] = [(ex_key_1430, True)]
   \<and> fromISO_utc (embedded_iso ex_key_1430) = DT 1709649000000
   \<and> second_segment ex_key_1430 = Some ''2024-03-05T14''
   \<and> fromISO_utc ''2024-03-05T14'' = DT 1709647200000"
proof -
  have e: "embedded_iso ex_key_1430 = ''2024-03-05T14:30:00.000Z''"
    unfolding ex_key_1430_def by code_simp
  have s: "second_segment ex_key_1430 = Some ''2024-03-05T14''"
    unfolding ex_key_1430_def by code_simp
  have f1: "fromISO_utc ''2024-03-05T14:30:00.000Z'' = DT 1709649000000" by code_simp
  have f2: "fromISO_utc ''2024-03-05T14'' = DT 1709647200000" by code_simp
  have a: "prune_index fromISO_utc 1710858000000 [(ex_key_1430, True)] = []"
    by (simp add: prune_index_filter stale_index_iff s f2 del: fromISO_utc.simps)
  have b: "prune fromISO_utc 1710858000000 [(ex_key_1430, True)] = [(ex_key_1430, True)]"
    by (simp add: prune_filter stale_iff e f1 del: fromISO_utc.simps)
  show ?thesis using a b s f2 by (simp add: e f1 del: fromISO_utc.simps)
qed

text \<open>The sizes of the two ledgers behind the cleanup.\<close>

theorem prune_index_early_witness:
  "length (prune_index fromISO_utc 1710858000000 [(ex_key_1430, True)]) = 0
   \<and> length (prune fromISO_utc 1710858000000 [(ex_key_1430, True)]) = 1"
  using prune_index_early by simp

section \<open>The length of the replies\<close>

text \<open>\<^verbatim>\<open>formatUpcomingLines\<close> of the second variant returns at most 1800 characters and
  the marker of 11 characters, the marker exactly when the listing is longer than 1800
  characters; with its heading the \<^verbatim>\<open>week\<close> reply has at most 1843 characters.\<close>

lemma formatUpcomingLines_bound:
  "length (formatUpcomingLines items) \<le> 1811
   \<and> (items \<noteq> [] \<and> length (join_with (CHR 0x0A) (map upcoming_line items)) \<le> 1800
        \<longrightarrow> formatUpcomingLines items = join_with (CHR 0x0A) (map upcoming_line items))
   \<and> (1800 < length (join_with (CHR 0x0A) (map upcoming_line items))
        \<longrightarrow> formatUpcomingLines items
              = take 1800 (join_with (CHR 0x0A) (map upcoming_line items)) @ trimmed_marker)
   \<and> length (week_reply now evs) \<le> 1843"
proof -
  have m: "length trimmed_marker = 11" by (simp add: trimmed_marker_def)
  have a: "length (formatUpcomingLines items) \<le> 1811" for items
    by (simp add: formatUpcomingLines_def Let_def m)
  have b: "1800 < length (join_with (CHR 0x0A) (map upcoming_line items)) \<Longrightarrow> items \<noteq> []"
    by auto
  have w: "length (week_reply now evs) \<le> 1843"
    using a[of "listUpcoming now seven_days evs"] by (simp add: week_reply_def)
  show ?thesis using a[of items] b w by (auto simp: formatUpcomingLines_def Let_def)
qed

text \<open>
  C9, where the code departs from it. The \<^verbatim>\<open>week\<close> handler of \<^verbatim>\<open>index.js\<close> joins its
  lines and replies with the result as it is. A line has 29 characters, so sixty-two
  events inside the week give a reply of 1859 characters, with no marker; the listing of
  the second variant for the same catalog stays within 1811.
\<close>

theorem week_index_untruncated:
  "length (week_reply_index (fixed_clock 1709251200000) ex_hourly) = 1859
   \<and> length (formatUpcomingLines (listUpcoming 1709251200000 seven_days ex_hourly)) \<le> 1811"
proof -
  have "ex_hourly \<noteq> []" using ex_hourly_props(1) by auto
  then have "length (week_reply_index (fixed_clock 1709251200000) ex_hourly) + 1 = 30 * length ex_hourly"
    using ex_hourly_props(2) by (intro week_reply_index_length) auto
  then show ?thesis using formatUpcomingLines_bound by (simp add: ex_hourly_props(1))
qed

text \<open>The reply of \<^verbatim>\<open>index.js\<close> is longer than 1800 characters and the marker.\<close>

theorem week_index_untruncated_witness:
  "1811 < length (week_reply_index (fixed_clock 1709251200000) ex_hourly)"
  using week_index_untruncated by simp

end
